theory Spec2Isabelle
  imports Main "HOL-Library.Word"
begin

section \<open>The argument table of arguments.h\<close>

text \<open>
  The header generates its code from the invocations of the macro \<open>_A\<close> in
  \<^verbatim>\<open>arguments.def\<close>. The embedding takes the list of those invocations, in the
  order of the file, as a list of descriptors, and the members of the global struct
  \<^verbatim>\<open>arguments\<close> as a list of the same length. It follows the default configuration
  of the header: \<^verbatim>\<open>ARGUMENTS_AUTOMATIC\<close> and \<^verbatim>\<open>ARGUMENTS_PRINT_HELP\<close> are both 1,
  so that \<^verbatim>\<open>arguments-help.h\<close> is included and \<open>arguments_read\<close> prints the
  help.

  A C string is the list of its bytes before the terminating NUL; \<^verbatim>\<open>argv\<close> is the
  list of its \<^verbatim>\<open>argc\<close> strings. The typed values of all arguments live in one
  type \<open>'v\<close>. The statement blocks \<^verbatim>\<open>set_default\<close>, \<^verbatim>\<open>read\<close> and
  \<^verbatim>\<open>release\<close> of an invocation are functions of what the header hands them:
  \<^verbatim>\<open>*target\<close>, the captured strings, and for the first two the flag
  \<^verbatim>\<open>is_valid\<close> they may clear.
\<close>

subsection \<open>Conversions between int and unsigned int\<close>

definition u32 :: "int \<Rightarrow> int" where
  "u32 x = x mod 2 ^ 32"

definition s32 :: "int \<Rightarrow> int" where
  "s32 x = (x + 2 ^ 31) mod 2 ^ 32 - 2 ^ 31"

subsection \<open>arguments_cmp\<close>

definition deref :: "string \<Rightarrow> char" where
  "deref s = (case s of [] \<Rightarrow> CHR 0x00 | c # _ \<Rightarrow> c)"

definition char_val :: "char \<Rightarrow> int" where
  "char_val c = (let v = of_char c in if v < 128 then v else v - 256)"

text \<open>
  \<open>deref\<close> reads the byte a \<^verbatim>\<open>char *\<close> points at, the NUL at the end of the
  string. \<open>char_val\<close> is the promotion of a (signed) \<^verbatim>\<open>char\<close> to \<^verbatim>\<open>int\<close>.
\<close>

fun cmp_loop :: "string \<Rightarrow> string \<Rightarrow> string \<times> string" where
  "cmp_loop (c # longarg) (n # name) =
     (if c \<noteq> (if n = CHR ''_'' then CHR ''-'' else n) then (c # longarg, n # name)
      else cmp_loop longarg name)"
| "cmp_loop longarg name = (longarg, name)"

definition arguments_cmp :: "string \<Rightarrow> string \<Rightarrow> int" where
  "arguments_cmp longarg name =
     (if deref longarg \<noteq> CHR ''-'' then - 1
      else if deref (tl longarg) \<noteq> CHR ''-'' then - 1
      else case cmp_loop (tl (tl longarg)) name of
        (l, n) \<Rightarrow>
          if char_val (deref l) - (if deref n = CHR ''_'' then 1 else 0) \<noteq> 0
          then char_val CHR ''-''
          else char_val (deref n))"

subsection \<open>The struct arguments\<close>

datatype status = AC_OK | AC_ERROR | AC_HELP

record 'v argument =
  present :: bool
  initialized :: bool
  value_strings :: "nat option"
  value_strings_length :: "32 word"
  val :: 'v

text \<open>
  \<open>value_strings\<close> is a pointer into \<^verbatim>\<open>argv\<close>: \<open>None\<close> is the null pointer
  and \<open>Some p\<close> is \<^verbatim>\<open>argv + p\<close>. \<open>value_strings_length\<close> is an
  \<^verbatim>\<open>unsigned int\<close>.
\<close>

record 'v descriptor =
  name :: string
  short :: "string option"
  value_count :: "32 word"
  is_required :: "'v argument list \<Rightarrow> bool"
  help_text :: string
  set_default :: "'v \<Rightarrow> 'v \<times> bool"
  read :: "string list \<Rightarrow> 'v \<Rightarrow> 'v \<times> bool"
  release :: "'v \<Rightarrow> 'v"

text \<open>
  \<open>short = None\<close> is \<^verbatim>\<open>ARGUMENT_NO_SHORT_OPTION\<close>. \<open>value_count\<close> is the
  macro argument as the assignment to \<open>value_strings_length\<close> converts it.
  \<open>is_required\<close> is an expression over the struct \<^verbatim>\<open>arguments\<close>.
\<close>

datatype event = ReadEv nat | DefaultEv nat | ReleaseEv nat | TeardownEv

datatype handler = H_teardown | H_arguments_release

record 'v process =
  arguments :: "'v argument list"
  handlers :: "handler list"
  trace :: "event list"

text \<open>
  \<open>handlers\<close> are the functions registered with \<^verbatim>\<open>atexit\<close>, oldest first;
  \<open>trace\<close> records each execution of a statement block of descriptor \<open>i\<close>.
\<close>

definition captured :: "string list \<Rightarrow> 'v argument \<Rightarrow> string list" where
  "captured argv a =
     (case value_strings a of
        None \<Rightarrow> []
      | Some p \<Rightarrow> take (unat (value_strings_length a)) (drop p argv))"

text \<open>
  The strings a statement block can read through \<^verbatim>\<open>value_strings\<close>: the
  \<open>value_strings_length\<close> elements of \<^verbatim>\<open>argv\<close> from the pointer on, as far as
  \<^verbatim>\<open>argv\<close> goes.
\<close>

subsection \<open>arguments_initialize\<close>

definition arguments_initialize :: "'v \<Rightarrow> 'v descriptor list \<Rightarrow> 'v argument list" where
  "arguments_initialize zero schema =
     map (\<lambda>d. \<lparr>present = False, initialized = False, value_strings = None,
               value_strings_length = 0, val = zero\<rparr>) schema"

subsection \<open>arguments-help.h: the line breaking\<close>

datatype mbresult = Mb_nul | Mb_invalid | Mb_incomplete | Mb_len nat

text \<open>
  What \<^verbatim>\<open>mbrlen\<close> returns: 0, \<^verbatim>\<open>(size_t)-1\<close>, \<^verbatim>\<open>(size_t)-2\<close>, or the number
  of bytes of the next character. \<^verbatim>\<open>mbrlen\<close> belongs to the C library and depends on
  the locale, so \<^verbatim>\<open>arguments_get_line\<close> takes it as a parameter, a function of the
  conversion state and the bytes it may read, together with the initial conversion
  state.
\<close>

definition isspace :: "char \<Rightarrow> bool" where
  "isspace c \<longleftrightarrow> c \<in> {CHR '' '', CHR 0x09, CHR 0x0A, CHR 0x0B, CHR 0x0C, CHR 0x0D}"

definition mbrlen_single :: "unit \<Rightarrow> string \<Rightarrow> mbresult \<times> unit" where
  "mbrlen_single m bytes =
     (case bytes of
        [] \<Rightarrow> (Mb_incomplete, m)
      | c # _ \<Rightarrow> (if c = CHR 0x00 then Mb_nul else Mb_len 1, m))"

text \<open>
  \<open>isspace\<close> and \<open>mbrlen_single\<close> are the C library in the C locale, where every
  byte is one character.
\<close>

record 'm line_state =
  g_length :: nat
  g_was_space :: bool
  g_seen_space :: bool
  g_l :: nat
  g_i :: nat
  g_result :: nat
  g_mbs :: 'm

definition body_unseen :: "'m line_state \<Rightarrow> 'm line_state" where
  "body_unseen st =
     (if \<not> g_seen_space st then st\<lparr>g_length := g_l st, g_result := g_i st\<rparr> else st)"

definition body_count :: "'m line_state \<Rightarrow> 'm line_state" where
  "body_count st = st\<lparr>g_l := g_l st + 1\<rparr>"

definition body_space :: "string \<Rightarrow> 'm line_state \<Rightarrow> 'm line_state" where
  "body_space s st =
     (let is_space = isspace (s ! g_i st);
          st1 = st\<lparr>g_seen_space := g_seen_space st \<or> is_space\<rparr>;
          st2 = (if is_space \<and> \<not> g_was_space st1 then st1\<lparr>g_length := g_l st1 - 1\<rparr>
                 else if \<not> is_space \<and> g_was_space st1 then st1\<lparr>g_result := g_i st1\<rparr>
                 else st1)
      in st2\<lparr>g_was_space := is_space\<rparr>)"

definition body_advance ::
  "('m \<Rightarrow> string \<Rightarrow> mbresult \<times> 'm) \<Rightarrow> string \<Rightarrow> nat \<Rightarrow> 'm line_state \<Rightarrow> 'm line_state" where
  "body_advance mbrlen s en st =
     (let dm = mbrlen (g_mbs st) (take (en - g_i st) (drop (g_i st) s))
      in st\<lparr>g_mbs := snd dm,
             g_i := (case fst dm of
                       Mb_nul \<Rightarrow> g_i st
                     | Mb_invalid \<Rightarrow> g_i st + 1
                     | Mb_incomplete \<Rightarrow> g_i st + 1
                     | Mb_len di \<Rightarrow> g_i st + di)\<rparr>)"

definition body_last :: "nat \<Rightarrow> 'm line_state \<Rightarrow> 'm line_state" where
  "body_last en st =
     (if g_i st = en then st\<lparr>g_length := g_l st, g_result := g_i st\<rparr> else st)"

definition get_line_body ::
  "('m \<Rightarrow> string \<Rightarrow> mbresult \<times> 'm) \<Rightarrow> string \<Rightarrow> nat \<Rightarrow> 'm line_state \<Rightarrow> 'm line_state" where
  "get_line_body mbrlen s en st =
     body_last en (body_advance mbrlen s en (body_space s (body_count (body_unseen st))))"

text \<open>
  The body of the \<^verbatim>\<open>for\<close> loop after the test for a newline, statement by
  statement: the update while no space has been seen, \<^verbatim>\<open>l++\<close>, the two transitions
  between space and word, the step over one character with \<^verbatim>\<open>mbrlen\<close>, and the
  update at the last character. \<open>en\<close> is the variable \<^verbatim>\<open>end\<close>, and
  \<open>g_length\<close> is \<^verbatim>\<open>*length\<close>.
\<close>

function get_line_loop ::
  "('m \<Rightarrow> string \<Rightarrow> mbresult \<times> 'm) \<Rightarrow> string \<Rightarrow> nat \<Rightarrow> nat \<Rightarrow> 'm line_state \<Rightarrow>
   'm line_state" where
  "get_line_loop mbrlen s en max_length st =
     (if g_i st < en \<and> g_l st < max_length then
        if s ! g_i st = CHR 0x0A then st\<lparr>g_length := g_l st, g_result := g_i st + 1\<rparr>
        else get_line_loop mbrlen s en max_length (get_line_body mbrlen s en st)
      else st)"
  by pat_completeness auto
termination
proof (relation "measure (\<lambda>(mbrlen, s, en, max_length, st). max_length - g_l st)")
  show "wf (measure (\<lambda>(mbrlen :: 'm \<Rightarrow> string \<Rightarrow> mbresult \<times> 'm, s :: string, en :: nat,
                      max_length :: nat, st :: 'm line_state). max_length - g_l st))"
    by simp
next
  fix mbrlen :: "'m \<Rightarrow> string \<Rightarrow> mbresult \<times> 'm"
    and s :: string and en max_length :: nat and st :: "'m line_state"
  assume c: "g_i st < en \<and> g_l st < max_length"
  have 1: "g_l (body_unseen st) = g_l st"
    by (simp add: body_unseen_def)
  have 2: "g_l (body_count (body_unseen st)) = g_l st + 1"
    by (simp add: body_count_def 1)
  have 3: "g_l (body_space s (body_count (body_unseen st))) = g_l st + 1"
    by (simp add: body_space_def Let_def 2)
  have 4: "g_l (body_advance mbrlen s en (body_space s (body_count (body_unseen st)))) =
           g_l st + 1"
    by (simp add: body_advance_def Let_def 3)
  have "g_l (get_line_body mbrlen s en st) = g_l st + 1"
    by (simp add: get_line_body_def body_last_def 4)
  with c show "((mbrlen, s, en, max_length, get_line_body mbrlen s en st),
                (mbrlen, s, en, max_length, st))
               \<in> measure (\<lambda>(mbrlen, s, en, max_length, st). max_length - g_l st)"
    by auto
qed

text \<open>
  The \<^verbatim>\<open>for\<close> loop. The counters are \<^verbatim>\<open>unsigned int\<close>; \<open>g_l\<close> stays below
  \<^verbatim>\<open>max_length\<close>, and \<open>g_i\<close> at most \<open>en\<close> as long as \<^verbatim>\<open>mbrlen\<close> returns no
  more than the number of bytes it was given, so that they do not wrap.
\<close>

function skip_spaces :: "string \<Rightarrow> nat \<Rightarrow> nat \<Rightarrow> nat" where
  "skip_spaces s en r =
     (if r < en \<and> s ! r = CHR '' '' then skip_spaces s en (r + 1) else r)"
  by pat_completeness auto
termination
  by (relation "measure (\<lambda>(s, en, r). en - r)") auto

definition arguments_get_line ::
  "('m \<Rightarrow> string \<Rightarrow> mbresult \<times> 'm) \<Rightarrow> 'm \<Rightarrow> string \<Rightarrow> nat \<Rightarrow> nat \<times> nat" where
  "arguments_get_line mbrlen mbs0 s max_length =
     (let en = length s mod 2 ^ 32;
          st = get_line_loop mbrlen s en max_length
                 \<lparr>g_length = 0, g_was_space = False, g_seen_space = False, g_l = 0, g_i = 0,
                  g_result = 0, g_mbs = mbs0\<rparr>;
          r = (if g_result st < g_length st then g_length st else g_result st)
      in (skip_spaces s en r, g_length st))"

text \<open>
  The pair of the returned offset of the next line and of \<^verbatim>\<open>*length\<close>.
  \<^verbatim>\<open>strlen\<close> is assigned to an \<^verbatim>\<open>unsigned int\<close>.
\<close>

partial_function (option) help_string_lines ::
  "('m \<Rightarrow> string \<Rightarrow> mbresult \<times> 'm) \<Rightarrow> 'm \<Rightarrow> string \<Rightarrow> nat \<Rightarrow> string list option" where
  [code]: "help_string_lines mbrlen mbs0 c max_length =
     (if c = [] then Some []
      else case arguments_get_line mbrlen mbs0 c max_length of
        (n, len) \<Rightarrow>
          Option.bind (help_string_lines mbrlen mbs0 (drop n c) max_length)
            (\<lambda>rest. Some (take len c # rest)))"

text \<open>
  The \<^verbatim>\<open>while (*c)\<close> loop of \<^verbatim>\<open>arguments_print_help_string\<close> for a text
  \<open>c\<close>, with \<open>max_length\<close> the third argument it passes to
  \<^verbatim>\<open>arguments_get_line\<close>: the list of the strings it prints with
  \<^verbatim>\<open>printf("%-.*s", length, c)\<close>, one for each call, where the precision
  \<^verbatim>\<open>length\<close> is below \<open>2 ^ 31\<close>. \<open>None\<close> is a loop that never ends.
\<close>

definition print_max_length :: "bool \<Rightarrow> nat \<Rightarrow> nat \<Rightarrow> nat" where
  "print_max_length has_header header_width terminal_width =
     (if has_header then (terminal_width + 2 ^ 32 - header_width mod 2 ^ 32) mod 2 ^ 32
      else (terminal_width + 1) mod 2 ^ 32)"

text \<open>
  The third argument of the call in \<^verbatim>\<open>arguments_print_help_string\<close>,
  \<^verbatim>\<open>terminal_width - header_width + (header ? 0 : 1)\<close> in \<^verbatim>\<open>unsigned int\<close>,
  where \<^verbatim>\<open>header_width\<close> has been set to 0 if there is no header.
\<close>

subsection \<open>arguments-help.h: the printer\<close>

definition arguments_terminal_width :: "int option \<Rightarrow> nat" where
  "arguments_terminal_width columns =
     (let result = (case columns of None \<Rightarrow> 80 | Some n \<Rightarrow> n);
          result = (if result = 0 then s32 (u32 (- 1)) else result)
      in nat (u32 result))"

text \<open>
  The argument is what \<^verbatim>\<open>getenv("COLUMNS")\<close> gives, read by \<^verbatim>\<open>atoi\<close>:
  \<open>None\<close> when the variable is not set, \<open>Some n\<close> when \<^verbatim>\<open>atoi\<close> returns
  \<open>n\<close>. The local \<^verbatim>\<open>result\<close> is an \<^verbatim>\<open>int\<close>, so that the assignment of
  \<^verbatim>\<open>(unsigned int)-1\<close> converts to \<^verbatim>\<open>int\<close> and the \<^verbatim>\<open>return\<close> back to
  \<^verbatim>\<open>unsigned int\<close>.
\<close>

record help_entry =
  entry_name :: string
  entry_short :: "string option"
  entry_help :: string

text \<open>
  The header reads the table through a macro of its own, \<^verbatim>\<open>ARGUMENT\<close>, which it
  defines before each \<^verbatim>\<open>#include "../arguments.def"\<close>. A \<open>help_entry\<close> is what
  the two definitions of that macro use of one invocation: the second macro argument
  as a string, the third (\<open>None\<close> when it is null), and the one that
  \<^verbatim>\<open>arguments_print_help\<close> passes on as help text, which is the fourth parameter
  of its definition of the macro.
\<close>

definition argument_header_width :: "help_entry list \<Rightarrow> nat" where
  "argument_header_width entries =
     fold (\<lambda>e result.
             let current = (2 + length (entry_name e)) mod 2 ^ 32;
                 current = (case entry_short e of
                              None \<Rightarrow> current
                            | Some s \<Rightarrow> (current + (2 + length s)) mod 2 ^ 32)
             in if current > result then current else result)
          entries 0"

definition arguments_print_help_string ::
  "('m \<Rightarrow> string \<Rightarrow> mbresult \<times> 'm) \<Rightarrow> 'm \<Rightarrow> string option \<Rightarrow> string \<Rightarrow> nat \<Rightarrow> nat \<Rightarrow>
   string list option" where
  "arguments_print_help_string mbrlen mbs0 header help header_width terminal_width =
     (let header_width = (if header \<noteq> None then header_width else 0)
      in case help_string_lines mbrlen mbs0 help
                (print_max_length (header \<noteq> None) header_width terminal_width) of
           None \<Rightarrow> None
         | Some ls \<Rightarrow>
             if header \<noteq> None \<and> 1 < length ls \<and> header_width mod 2 ^ 32 = 2 ^ 32 - 1
             then None else Some ls)"

text \<open>
  \<open>header = None\<close> is the call with a null header. The value is that of the
  \<^verbatim>\<open>while\<close> loop: the strings printed by \<^verbatim>\<open>printf("%-.*s", length, c)\<close>
  if the function returns, and \<open>None\<close> if it does not. Between two lines of a
  text with a header the loop \<^verbatim>\<open>for (i = 0; i <= header_width; i++)\<close> pads the
  header column; it ends unless \<^verbatim>\<open>header_width\<close> is the greatest
  \<^verbatim>\<open>unsigned int\<close>. The header column, the padding and the newlines are printed
  besides and are not part of the value.
\<close>

definition entry_header :: "help_entry \<Rightarrow> string" where
  "entry_header e =
     map (\<lambda>c. if c = CHR ''_'' then CHR ''-'' else c)
       (take 127 (''--'' @ entry_name e @
                  (case entry_short e of None \<Rightarrow> [] | Some s \<Rightarrow> '', '' @ s)))"

text \<open>
  The buffer \<^verbatim>\<open>header\<close> of \<^verbatim>\<open>arguments_print_help\<close> after \<^verbatim>\<open>snprintf\<close>
  into its 128 bytes and the loop that replaces the underscores.
\<close>

primrec print_entries ::
  "('m \<Rightarrow> string \<Rightarrow> mbresult \<times> 'm) \<Rightarrow> 'm \<Rightarrow> nat \<Rightarrow> nat \<Rightarrow> help_entry list \<Rightarrow>
   string list list option" where
  "print_entries mbrlen mbs0 header_width terminal_width [] = Some []"
| "print_entries mbrlen mbs0 header_width terminal_width (e # es) =
     Option.bind
       (arguments_print_help_string mbrlen mbs0 (Some (entry_header e)) (entry_help e)
          header_width terminal_width)
       (\<lambda>ls. Option.bind (print_entries mbrlen mbs0 header_width terminal_width es)
                (\<lambda>rest. Some (ls # rest)))"

record 'm environment =
  env_columns :: "int option"
  env_help :: "string option"
  env_entries :: "help_entry list"
  env_mbrlen :: "'m \<Rightarrow> string \<Rightarrow> mbresult \<times> 'm"
  env_mbs :: 'm

text \<open>
  What the printer depends on besides its code: the variable \<^verbatim>\<open>COLUMNS\<close> as
  \<^verbatim>\<open>atoi\<close> reads it, the macro \<^verbatim>\<open>ARGUMENTS_HELP\<close> (\<open>None\<close> when it is
  not defined), the entries of the table, and \<^verbatim>\<open>mbrlen\<close> with the initial
  conversion state.
\<close>

definition arguments_print_help :: "'m environment \<Rightarrow> string list list option" where
  "arguments_print_help env =
     (let terminal_width = arguments_terminal_width (env_columns env);
          header_width = argument_header_width (env_entries env)
      in Option.bind
           (case env_help env of
              None \<Rightarrow> Some []
            | Some h \<Rightarrow>
                Option.bind
                  (arguments_print_help_string (env_mbrlen env) (env_mbs env) None h 0
                     terminal_width)
                  (\<lambda>ls. Some [ls]))
           (\<lambda>first.
              Option.bind
                (print_entries (env_mbrlen env) (env_mbs env) header_width terminal_width
                   (env_entries env))
                (\<lambda>rest. Some (first @ rest))))"

text \<open>
  The printed strings of each call of \<^verbatim>\<open>arguments_print_help_string\<close>, in the
  order of the calls: first the one for \<^verbatim>\<open>ARGUMENTS_HELP\<close>, if it is defined, then
  one for each entry of the table. \<open>None\<close> is a printer that never returns.
\<close>

subsection \<open>arguments_read\<close>

definition matches :: "'v descriptor \<Rightarrow> string \<Rightarrow> bool" where
  "matches d tok \<longleftrightarrow>
     arguments_cmp tok (name d) = 0 \<or> (case short d of None \<Rightarrow> False | Some s \<Rightarrow> tok = s)"

primrec find_match :: "'v descriptor list \<Rightarrow> string \<Rightarrow> nat option" where
  "find_match [] tok = None"
| "find_match (d # ds) tok =
     (if matches d tok then Some 0 else map_option Suc (find_match ds tok))"

text \<open>
  \<open>find_match\<close> is the chain of \<^verbatim>\<open>else if\<close> that the macro expands to: the
  index of the first descriptor, in the order of the file, whose condition holds.
\<close>

datatype branch = B_help | B_arg nat | B_none

definition select_branch :: "'v descriptor list \<Rightarrow> string \<Rightarrow> branch" where
  "select_branch schema tok =
     (if tok = ''--help'' \<or> tok = ''-h'' then B_help
      else case find_match schema tok of None \<Rightarrow> B_none | Some i \<Rightarrow> B_arg i)"

text \<open>
  \<open>select_branch\<close> is the whole conditional of the loop body: the test for the help
  flags comes first, then the descriptors, then the final \<^verbatim>\<open>else\<close>.
\<close>

datatype ('r, 's) pass = Return 'r | Continue 's | Hang

definition read_step ::
  "'m environment \<Rightarrow> 'v descriptor list \<Rightarrow> string list \<Rightarrow> 'v argument list \<times> int \<Rightarrow>
   (status \<times> 'v argument list \<times> int, 'v argument list \<times> int) pass" where
  "read_step env schema argv st =
     (case st of (args, nextarg) \<Rightarrow>
        case select_branch schema (argv ! nat nextarg) of
          B_help \<Rightarrow>
            (case arguments_print_help env of
               None \<Rightarrow> Hang
             | Some out \<Rightarrow> Return (AC_HELP, args, nextarg))
        | B_none \<Rightarrow> Return (AC_OK, args, nextarg)
        | B_arg i \<Rightarrow>
            let a = (args ! i)\<lparr>present := True,
                               value_strings_length := value_count (schema ! i)\<rparr> in
            if u32 (u32 nextarg + uint (value_strings_length a)) < u32 (int (length argv))
            then Continue (args[i := a\<lparr>value_strings := Some (nat (nextarg + 1))\<rparr>],
                           s32 (u32 (u32 (nextarg + 1) + uint (value_strings_length a))))
            else Return (AC_ERROR, args[i := a], nextarg))"

text \<open>
  One pass through the body of the \<^verbatim>\<open>while\<close> loop: \<open>Return\<close> when the pass
  leaves the loop (by \<^verbatim>\<open>return AC_HELP\<close>, by the final \<^verbatim>\<open>break\<close> or by the
  \<^verbatim>\<open>break\<close> with \<^verbatim>\<open>is_valid = 0\<close>), \<open>Continue\<close> when the loop goes on, and
  \<open>Hang\<close> when the pass never ends. The branch of the help flags calls
  \<^verbatim>\<open>arguments_print_help\<close> before its \<^verbatim>\<open>return\<close>, so it returns only if the
  printer does. The sum \<^verbatim>\<open>*nextarg + value_strings_length\<close> is computed in
  \<^verbatim>\<open>unsigned int\<close> and compared with \<^verbatim>\<open>argc\<close> converted to
  \<^verbatim>\<open>unsigned int\<close>.
\<close>

partial_function (option) read_loop ::
  "'m environment \<Rightarrow> 'v descriptor list \<Rightarrow> string list \<Rightarrow> 'v argument list \<times> int \<Rightarrow>
   (status \<times> 'v argument list \<times> int) option" where
  [code]: "read_loop env schema argv st =
     (if snd st < int (length argv)
      then (case read_step env schema argv st of
              Return r \<Rightarrow> Some r
            | Continue st' \<Rightarrow> read_loop env schema argv st'
            | Hang \<Rightarrow> None)
      else Some (AC_OK, fst st, snd st))"

definition arguments_read ::
  "'m environment \<Rightarrow> 'v descriptor list \<Rightarrow> string list \<Rightarrow> 'v argument list \<Rightarrow> int \<Rightarrow>
   (status \<times> 'v argument list \<times> int) option" where
  "arguments_read env schema argv args nextarg =
     read_loop env schema argv (args, if nextarg < 1 then 1 else nextarg)"

text \<open>
  The result holds the returned status, the struct and \<^verbatim>\<open>*nextarg\<close> at the
  return; \<open>None\<close> is a scan that never returns.
\<close>

inductive scan_reaches ::
  "'m environment \<Rightarrow> 'v descriptor list \<Rightarrow> string list \<Rightarrow> 'v argument list \<times> int \<Rightarrow>
   'v argument list \<times> int \<Rightarrow> bool" where
  here: "scan_reaches env schema argv st st"
| step: "scan_reaches env schema argv st st1 \<Longrightarrow> snd st1 < int (length argv) \<Longrightarrow>
         read_step env schema argv st1 = Continue st2 \<Longrightarrow> scan_reaches env schema argv st st2"

text \<open>
  \<open>scan_reaches env schema argv st st'\<close>: the loop started in \<open>st\<close> is at the head
  of an iteration in \<open>st'\<close>.
\<close>

subsection \<open>arguments_set\<close>

definition run_block :: "'v descriptor \<Rightarrow> string list \<Rightarrow> 'v argument \<Rightarrow> 'v \<times> bool" where
  "run_block d argv a =
     (if present a then read d (captured argv a) (val a) else set_default d (val a))"

definition block_event :: "'v argument \<Rightarrow> nat \<Rightarrow> event" where
  "block_event a i = (if present a then ReadEv i else DefaultEv i)"

definition set_arg ::
  "'v descriptor list \<Rightarrow> string list \<Rightarrow> nat \<Rightarrow> bool \<times> 'v process \<Rightarrow> bool \<times> 'v process" where
  "set_arg schema argv i st =
     (case st of (is_valid, p) \<Rightarrow>
        if is_valid then
          let a = arguments p ! i;
              (v, ok) = run_block (schema ! i) argv a
          in (ok, p\<lparr>arguments := (arguments p)
                      [i := a\<lparr>val := v, initialized := (if ok then True else initialized a)\<rparr>],
                    trace := trace p @ [block_event a i]\<rparr>)
        else (is_valid, p))"

text \<open>
  The block the macro expands to for descriptor \<open>i\<close>, on the pair of the local
  \<^verbatim>\<open>is_valid\<close> and the process state. \<open>run_block\<close> is the inner conditional:
  the statements \<^verbatim>\<open>read\<close> if the argument is present, \<^verbatim>\<open>set_default\<close> if not;
  it gives \<^verbatim>\<open>*target\<close> and \<^verbatim>\<open>is_valid\<close> as the statements leave them, and
  \<open>block_event\<close> is its entry in the trace.
\<close>

definition arguments_set ::
  "'v descriptor list \<Rightarrow> string list \<Rightarrow> 'v process \<Rightarrow> status \<times> 'v process" where
  "arguments_set schema argv p =
     (case fold (set_arg schema argv) [0..<length schema] (True, p) of
        (is_valid, p') \<Rightarrow>
          (if is_valid then AC_OK else AC_ERROR,
           p'\<lparr>handlers := handlers p' @ [H_arguments_release]\<rparr>))"

text \<open>
  \<^verbatim>\<open>argv\<close> is a parameter of the model only: it is the memory the pointers
  \<open>value_strings\<close> lead into.
\<close>

subsection \<open>arguments_release\<close>

definition release_arg :: "'v descriptor list \<Rightarrow> nat \<Rightarrow> 'v process \<Rightarrow> 'v process" where
  "release_arg schema i p =
     (let a = arguments p ! i in
      if initialized a
      then p\<lparr>arguments := (arguments p)[i := a\<lparr>val := release (schema ! i) (val a)\<rparr>],
             trace := trace p @ [ReleaseEv i]\<rparr>
      else p)"

definition arguments_release :: "'v descriptor list \<Rightarrow> 'v process \<Rightarrow> 'v process" where
  "arguments_release schema p = fold (release_arg schema) [0..<length schema] p"

subsection \<open>main and the end of the process\<close>

record 'v program =
  descriptors :: "'v descriptor list"
  zero_value :: 'v
  setup_fn :: "string list \<Rightarrow> int"
  run_fn :: "string list \<Rightarrow> 'v list \<Rightarrow> int"

text \<open>
  What the application supplies: the table, the functions \<^verbatim>\<open>setup\<close> and
  \<^verbatim>\<open>run\<close>, and the value whose bytes are all zero, which \<^verbatim>\<open>memset\<close> in
  \<^verbatim>\<open>arguments_initialize\<close> leaves in every member.
\<close>

datatype main_return =
  Ret_help | Ret_invalid_read | Ret_missing nat | Ret_setup int | Ret_invalid_set | Ret_run int

fun exit_code :: "main_return \<Rightarrow> int" where
  "exit_code Ret_help = 0"
| "exit_code Ret_invalid_read = 110"
| "exit_code (Ret_missing i) = 120"
| "exit_code (Ret_setup r) = r"
| "exit_code Ret_invalid_set = 110"
| "exit_code (Ret_run r) = r"

text \<open>
  One constructor for each \<^verbatim>\<open>return\<close> of \<^verbatim>\<open>main\<close>, in the order of the
  source; 110 is \<^verbatim>\<open>ARGUMENTS_PARAMETER_INVALID\<close> and 120 is
  \<^verbatim>\<open>ARGUMENTS_PARAMETER_MISSING\<close>. \<open>Ret_missing i\<close> is the return in the block of
  descriptor \<open>i\<close>.
\<close>

definition find_missing :: "'v descriptor list \<Rightarrow> 'v argument list \<Rightarrow> nat option" where
  "find_missing schema args =
     List.find (\<lambda>i. is_required (schema ! i) args \<and> \<not> present (args ! i)) [0..<length schema]"

definition main ::
  "'m environment \<Rightarrow> 'v program \<Rightarrow> string list \<Rightarrow> (main_return \<times> 'v process) option" where
  "main env prog argv =
     (case arguments_read env (descriptors prog) argv
             (arguments_initialize (zero_value prog) (descriptors prog)) 1 of
        None \<Rightarrow> None
      | Some (st, args, nextarg) \<Rightarrow>
          let p = \<lparr>arguments = args, handlers = [], trace = []\<rparr> in
          (case st of
             AC_HELP \<Rightarrow> Some (Ret_help, p)
           | AC_ERROR \<Rightarrow> Some (Ret_invalid_read, p)
           | AC_OK \<Rightarrow>
               (case find_missing (descriptors prog) args of
                  Some i \<Rightarrow> Some (Ret_missing i, p)
                | None \<Rightarrow>
                    let result = setup_fn prog argv in
                    if result \<noteq> 0 then Some (Ret_setup result, p)
                    else
                      (case arguments_set (descriptors prog) argv
                              (p\<lparr>handlers := handlers p @ [H_teardown]\<rparr>) of
                         (AC_OK, p2) \<Rightarrow>
                           Some (Ret_run (run_fn prog argv (map val (arguments p2))), p2)
                       | (_, p2) \<Rightarrow> Some (Ret_invalid_set, p2)))))"

definition run_handler :: "'v descriptor list \<Rightarrow> handler \<Rightarrow> 'v process \<Rightarrow> 'v process" where
  "run_handler schema h p =
     (case h of
        H_teardown \<Rightarrow> p\<lparr>trace := trace p @ [TeardownEv]\<rparr>
      | H_arguments_release \<Rightarrow> arguments_release schema p)"

definition exit_process :: "'v descriptor list \<Rightarrow> 'v process \<Rightarrow> 'v process" where
  "exit_process schema p = fold (run_handler schema) (rev (handlers p)) p"

definition run_process ::
  "'m environment \<Rightarrow> 'v program \<Rightarrow> string list \<Rightarrow> (int \<times> 'v process) option" where
  "run_process env prog argv =
     (case main env prog argv of
        None \<Rightarrow> None
      | Some (r, p) \<Rightarrow> Some (exit_code r, exit_process (descriptors prog) p))"

text \<open>
  The return from \<^verbatim>\<open>main\<close> ends the process: the functions registered with
  \<^verbatim>\<open>atexit\<close> run, the last registered first. \<open>None\<close> is a process that
  never ends.
\<close>

declare get_line_loop.simps [simp del] skip_spaces.simps [simp del]

section \<open>Notions of the specification\<close>

definition dashed :: "string \<Rightarrow> string" where
  "dashed n = map (\<lambda>c. if c = CHR ''_'' then CHR ''-'' else c) n"

definition long_form :: "string \<Rightarrow> string" where
  "long_form n = ''--'' @ dashed n"

text \<open>
  \<open>long_form n\<close> is the long argument of the name \<open>n\<close>: two dashes, then the
  name with every underscore replaced by a dash.
\<close>

definition ident_char :: "char \<Rightarrow> bool" where
  "ident_char c \<longleftrightarrow>
     (let k = (of_char c :: nat)
      in k = 95 \<or> (48 \<le> k \<and> k \<le> 57) \<or> (65 \<le> k \<and> k \<le> 90) \<or> (97 \<le> k \<and> k \<le> 122))"

definition c_identifier :: "string \<Rightarrow> bool" where
  "c_identifier s \<longleftrightarrow>
     s \<noteq> [] \<and> list_all ident_char s \<and>
     \<not> (48 \<le> (of_char (hd s) :: nat) \<and> (of_char (hd s) :: nat) \<le> 57)"

text \<open>
  The name of an invocation of \<open>_A\<close> is a C identifier, since the macro makes a
  type name and a struct member of it: letters, digits and underscores, no digit first.
\<close>

definition block_valid :: "'v descriptor list \<Rightarrow> string list \<Rightarrow> 'v argument list \<Rightarrow> nat \<Rightarrow> bool" where
  "block_valid schema argv args i \<longleftrightarrow> snd (run_block (schema ! i) argv (args ! i))"

definition set_reaches :: "'v descriptor list \<Rightarrow> string list \<Rightarrow> 'v argument list \<Rightarrow> nat \<Rightarrow> bool" where
  "set_reaches schema argv args i \<longleftrightarrow> (\<forall>j<i. block_valid schema argv args j)"

text \<open>
  \<open>block_valid\<close>: the statements of descriptor \<open>i\<close>, run on the struct \<open>args\<close>,
  leave \<^verbatim>\<open>is_valid\<close> set. \<open>set_reaches\<close>: this holds of every descriptor before
  \<open>i\<close>, which is when \<open>arguments_set\<close> runs the statements of \<open>i\<close>.
\<close>

definition set_result :: "'v descriptor list \<Rightarrow> string list \<Rightarrow> 'v argument list \<Rightarrow> nat \<Rightarrow> nat \<Rightarrow> 'v argument" where
  "set_result schema argv args n j =
     (if j < n \<and> set_reaches schema argv args j
      then (args ! j)\<lparr>val := fst (run_block (schema ! j) argv (args ! j)),
                      initialized := (if block_valid schema argv args j then True
                                      else initialized (args ! j))\<rparr>
      else args ! j)"

text \<open>
  \<open>set_result\<close>: the record of descriptor \<open>j\<close> once \<open>arguments_set\<close> has gone
  through the first \<open>n\<close> descriptors of a struct \<open>args\<close>.
\<close>

definition new_events :: "'v process \<Rightarrow> 'v process \<Rightarrow> event list" where
  "new_events p p' = drop (length (trace p)) (trace p')"

definition is_release :: "event \<Rightarrow> bool" where
  "is_release e = (case e of ReleaseEv i \<Rightarrow> True | _ \<Rightarrow> False)"

definition plain_word :: "string \<Rightarrow> bool" where
  "plain_word w \<longleftrightarrow> (\<forall>c \<in> set w. \<not> isspace c \<and> c \<noteq> CHR 0x00)"

definition word_state :: "nat \<Rightarrow> nat \<Rightarrow> nat \<Rightarrow> unit line_state" where
  "word_state a b t =
     \<lparr>g_length = a, g_was_space = False, g_seen_space = False, g_l = t, g_i = t,
      g_result = b, g_mbs = ()\<rparr>"

text \<open>
  \<open>plain_word\<close>: a string without space and without NUL. \<open>word_state a b t\<close>: the
  variables of \<open>arguments_get_line\<close> after \<open>t\<close> characters of such a string, with
  \<open>a\<close> in \<^verbatim>\<open>*length\<close> and \<open>b\<close> in \<^verbatim>\<open>result\<close>.
\<close>

section \<open>Example tables\<close>

definition ex_arg :: "string \<Rightarrow> string option \<Rightarrow> 32 word \<Rightarrow> bool \<Rightarrow> nat descriptor" where
  "ex_arg n sh k req =
     \<lparr>name = n, short = sh, value_count = k, is_required = (\<lambda>args. req),
      help_text = [], set_default = (\<lambda>v. (7, True)),
      read = (\<lambda>vs v. (length (concat vs), concat vs \<noteq> ''bad'')),
      release = (\<lambda>v. 0)\<rparr>"

text \<open>
  An argument with values in \<open>nat\<close>: the default is 7, the value read is the number
  of characters passed, and the one invalid value is \<^verbatim>\<open>bad\<close>.
\<close>

definition ex_program :: "nat descriptor list \<Rightarrow> nat program" where
  "ex_program schema =
     \<lparr>descriptors = schema, zero_value = 0, setup_fn = (\<lambda>argv. 0),
      run_fn = (\<lambda>argv vs. 0)\<rparr>"

definition ex_three :: "nat descriptor list" where
  "ex_three =
     [ex_arg ''count'' (Some ''-c'') 1 False, ex_arg ''name'' (Some ''-n'') 1 False,
      ex_arg ''size'' None 1 False]"

definition ex_absent :: "nat argument" where
  "ex_absent =
     \<lparr>present = False, initialized = False, value_strings = None,
      value_strings_length = 0, val = 0\<rparr>"

definition ex_struct :: "nat process" where
  "ex_struct =
     \<lparr>arguments =
        [ex_absent,
         \<lparr>present = True, initialized = False, value_strings = Some 2,
          value_strings_length = 1, val = 0\<rparr>,
         ex_absent],
      handlers = [H_teardown], trace = []\<rparr>"

text \<open>
  A table of three optional arguments, and the process state in which \<open>main\<close>
  calls \<open>arguments_set\<close> for a command line of the name of the program, the flag
  \<^verbatim>\<open>-n\<close> and its value, such as \<^verbatim>\<open>prog -n bad\<close>.
\<close>

definition ex_final :: "nat process" where
  "ex_final =
     \<lparr>arguments =
        [\<lparr>present = False, initialized = True, value_strings = None,
          value_strings_length = 0, val = 0\<rparr>,
         \<lparr>present = True, initialized = False, value_strings = Some 2,
          value_strings_length = 1, val = 3\<rparr>,
         ex_absent],
      handlers = [H_teardown, H_arguments_release],
      trace = [DefaultEv 0, ReadEv 1, ReleaseEv 0, TeardownEv]\<rparr>"

text \<open>
  The process state at the end of the process for the command line
  \<^verbatim>\<open>prog -n bad\<close>.
\<close>

definition released :: "'v descriptor list \<Rightarrow> 'v argument list \<Rightarrow> nat \<Rightarrow> nat \<Rightarrow> 'v argument" where
  "released schema args n j =
     (if j < n \<and> initialized (args ! j)
      then (args ! j)\<lparr>val := release (schema ! j) (val (args ! j))\<rparr>
      else args ! j)"

text \<open>
  \<open>released\<close>: the record of descriptor \<open>j\<close> once \<open>arguments_release\<close> has gone
  through the first \<open>n\<close> descriptors of a struct \<open>args\<close>.
\<close>

definition table_entries :: "'v descriptor list \<Rightarrow> help_entry list" where
  "table_entries schema =
     map (\<lambda>d. \<lparr>entry_name = name d, entry_short = short d, entry_help = help_text d\<rparr>) schema"

definition ex_env_at :: "int option \<Rightarrow> string option \<Rightarrow> nat descriptor list \<Rightarrow> unit environment" where
  "ex_env_at columns help schema =
     \<lparr>env_columns = columns, env_help = help, env_entries = table_entries schema,
      env_mbrlen = mbrlen_single, env_mbs = ()\<rparr>"

definition ex_env :: "nat descriptor list \<Rightarrow> unit environment" where
  "ex_env schema = ex_env_at None None schema"

text \<open>
  \<open>table_entries\<close>: the entries the printer reads when the table gives it the name,
  the short option and the help text of each descriptor. \<open>ex_env_at\<close>: the C locale,
  with the given value of \<^verbatim>\<open>COLUMNS\<close> and the given \<^verbatim>\<open>ARGUMENTS_HELP\<close>;
  \<open>ex_env\<close>: with \<^verbatim>\<open>COLUMNS\<close> not set and \<^verbatim>\<open>ARGUMENTS_HELP\<close> not defined.
\<close>

section \<open>The comparison of a token with a name\<close>

lemma cmp_loop_done: "cmp_loop l n = ([], []) \<longleftrightarrow> l = dashed n"
  by (induction l n rule: cmp_loop.induct) (auto simp: dashed_def)

lemma cmp_loop_suffix: "cmp_loop l n = (l', n') \<Longrightarrow> set l' \<subseteq> set l \<and> set n' \<subseteq> set n"
  by (induction l n rule: cmp_loop.induct) (auto split: if_splits)

lemma of_char_int_bounds: "0 \<le> (of_char c :: int) \<and> (of_char c :: int) < 256"
  by (metis of_char_mod_256 pos_mod_bound pos_mod_sign zero_less_numeral)

lemma of_char_int_zero: "(of_char c :: int) = 0 \<longleftrightarrow> c = CHR 0x00"
proof -
  have "(of_char (CHR 0x00) :: int) = 0" by simp
  then show ?thesis by (metis of_char_eq_iff)
qed

lemma char_val_zero: "char_val c = 0 \<longleftrightarrow> c = CHR 0x00"
  using of_char_int_bounds[of c] of_char_int_zero[of c] by (auto simp: char_val_def Let_def)

lemma cmp_tail_zero:
  assumes "CHR 0x00 \<notin> set l" "CHR 0x00 \<notin> set n"
  shows "(if char_val (deref l) - (if deref n = CHR ''_'' then 1 else 0) \<noteq> 0
          then char_val CHR ''-'' else char_val (deref n)) = 0 \<longleftrightarrow> l = [] \<and> n = []"
  using assms by (cases l; cases n) (auto simp: deref_def char_val_zero)

lemma arguments_cmp_zero:
  assumes "CHR 0x00 \<notin> set tok" "CHR 0x00 \<notin> set n"
  shows "arguments_cmp tok n = 0 \<longleftrightarrow> tok = long_form n"
proof (cases "\<exists>r. tok = ''--'' @ r")
  case True
  then obtain r where r: "tok = ''--'' @ r" by blast
  obtain l' n' where ln: "cmp_loop r n = (l', n')" by (cases "cmp_loop r n")
  from cmp_loop_suffix[OF ln] assms r have nz: "CHR 0x00 \<notin> set l'" "CHR 0x00 \<notin> set n'"
    by auto
  have "arguments_cmp tok n = 0 \<longleftrightarrow> l' = [] \<and> n' = []"
    using cmp_tail_zero[OF nz] by (simp add: arguments_cmp_def r deref_def ln)
  also have "\<dots> \<longleftrightarrow> r = dashed n" using cmp_loop_done[of r n] ln by simp
  finally show ?thesis by (simp add: r long_form_def)
next
  case False
  then have "tok \<noteq> long_form n" by (auto simp: long_form_def)
  moreover have "arguments_cmp tok n \<noteq> 0"
  proof (cases tok)
    case Nil
    then show ?thesis by (simp add: arguments_cmp_def deref_def)
  next
    case (Cons a t)
    show ?thesis
    proof (cases t)
      case Nil
      then show ?thesis using Cons by (simp add: arguments_cmp_def deref_def)
    next
      case (Cons b u)
      with \<open>tok = a # t\<close> False have "a \<noteq> CHR ''-'' \<or> b \<noteq> CHR ''-''" by auto
      then show ?thesis using Cons \<open>tok = a # t\<close> by (auto simp: arguments_cmp_def deref_def)
    qed
  qed
  ultimately show ?thesis by simp
qed

lemma ident_char_plain: "ident_char c \<Longrightarrow> c \<noteq> CHR ''-'' \<and> c \<noteq> CHR 0x00"
  by (auto simp: ident_char_def)

lemma identifier_plain: "c_identifier s \<Longrightarrow> CHR ''-'' \<notin> set s \<and> CHR 0x00 \<notin> set s"
  using ident_char_plain by (auto simp: c_identifier_def list_all_iff)

lemma dashed_inj:
  "dashed a = dashed b \<Longrightarrow> CHR ''-'' \<notin> set a \<Longrightarrow> CHR ''-'' \<notin> set b \<Longrightarrow> a = b"
proof (induction a arbitrary: b)
  case Nil
  then show ?case by (simp add: dashed_def)
next
  case (Cons x xs)
  then obtain y ys where b: "b = y # ys" by (cases b) (auto simp: dashed_def)
  with Cons.prems have "x = y" "dashed xs = dashed ys"
    by (auto simp: dashed_def split: if_splits)
  with Cons.IH[of ys] Cons.prems b show ?case by simp
qed

lemma dashed_no_nul: "CHR 0x00 \<notin> set n \<Longrightarrow> CHR 0x00 \<notin> set (long_form n)"
  by (auto simp: long_form_def dashed_def)

lemma dashed_plain:
  "dashed n = s \<Longrightarrow> CHR ''-'' \<notin> set s \<Longrightarrow> n = s"
proof (induction n arbitrary: s)
  case Nil
  then show ?case by (simp add: dashed_def)
next
  case (Cons x xs)
  then obtain y ys where s: "s = y # ys" by (cases s) (auto simp: dashed_def)
  from Cons.prems s have "x = y" "dashed xs = ys"
    by (auto simp: dashed_def split: if_splits)
  with Cons.IH[of ys] Cons.prems s show ?case by simp
qed

lemma long_form_help: "long_form n = ''--help'' \<longleftrightarrow> n = ''help''"
proof
  assume "long_form n = ''--help''"
  then have "dashed n = ''help''" by (simp add: long_form_def)
  then show "n = ''help''" by (rule dashed_plain) simp
next
  assume "n = ''help''"
  then show "long_form n = ''--help''" by (simp add: long_form_def dashed_def)
qed

section \<open>The lines of the help\<close>

lemmas body_defs = get_line_body_def body_last_def body_advance_def body_space_def
  body_count_def body_unseen_def

lemma word_body:
  assumes w: "plain_word w" and t: "t < length w"
  shows "get_line_body mbrlen_single w (length w) (word_state a b t) =
         (if t + 1 = length w then word_state (t + 1) (t + 1) (t + 1)
          else word_state t t (t + 1))"
proof -
  have c: "\<not> isspace (w ! t)" "w ! t \<noteq> CHR 0x00"
    using w t by (auto simp: plain_word_def)
  have d: "take (length w - t) (drop t w) = w ! t # drop (Suc t) w"
    using t by (simp add: Cons_nth_drop_Suc)
  show ?thesis
    using c by (simp add: body_defs word_state_def Let_def d mbrlen_single_def)
qed

lemma word_loop:
  assumes w: "plain_word w" and t: "t < length w" "t < m"
  shows "get_line_loop mbrlen_single w (length w) m (word_state a b t) =
         (if length w \<le> m then word_state (length w) (length w) (length w)
          else word_state (m - 1) (m - 1) m)"
  using t
proof (induction "min (length w) m - t" arbitrary: t a b)
  case 0
  then show ?case by simp
next
  case (Suc k)
  have nl: "w ! t \<noteq> CHR 0x0A" using w Suc.prems by (auto simp: plain_word_def isspace_def)
  have step: "get_line_loop mbrlen_single w (length w) m (word_state a b t) =
        get_line_loop mbrlen_single w (length w) m
          (get_line_body mbrlen_single w (length w) (word_state a b t))"
    using Suc.prems nl by (subst get_line_loop.simps) (simp add: word_state_def)
  show ?case
  proof (cases "Suc t < length w \<and> Suc t < m")
    case True
    then have "k = min (length w) m - Suc t" using Suc.hyps(2) by simp
    from Suc.hyps(1)[OF this, of t t] True
    have "get_line_loop mbrlen_single w (length w) m (word_state t t (Suc t)) =
         (if length w \<le> m then word_state (length w) (length w) (length w)
          else word_state (m - 1) (m - 1) m)" by simp
    with True show ?thesis by (simp add: step word_body[OF w Suc.prems(1)])
  next
    case False
    show ?thesis
    proof (cases "Suc t = length w")
      case True
      then show ?thesis
        using Suc.prems
        by (simp add: step word_body[OF w Suc.prems(1)])
           (subst get_line_loop.simps, simp add: word_state_def)
    next
      case F2: False
      with False Suc.prems have m: "Suc t = m" "m < length w" by auto
      then show ?thesis
        using Suc.prems F2
        by (simp add: step word_body[OF w Suc.prems(1)])
           (subst get_line_loop.simps, simp add: word_state_def)
    qed
  qed
qed

lemma skip_spaces_stay: "\<not> (r < en \<and> s ! r = CHR '' '') \<Longrightarrow> skip_spaces s en r = r"
  by (subst skip_spaces.simps) auto

lemma word_state_fields:
  "g_length (word_state a b t) = a" "g_result (word_state a b t) = b"
  by (simp_all add: word_state_def)

lemma word_get_line:
  assumes w: "plain_word w" and l: "0 < length w" "length w < 2 ^ 32" and m: "0 < m"
  shows "arguments_get_line mbrlen_single () w m =
         (if length w \<le> m then (length w, length w) else (m - 1, m - 1))"
proof -
  have en: "length w mod 4294967296 = length w" using l by simp
  have init: "\<lparr>g_length = 0, g_was_space = False, g_seen_space = False, g_l = 0, g_i = 0,
               g_result = 0, g_mbs = ()\<rparr> = word_state 0 0 0"
    by (simp add: word_state_def)
  note lp = word_loop[OF w l(1) m, of 0 0]
  show ?thesis
  proof (cases "length w \<le> m")
    case True
    have "skip_spaces w (length w) (length w) = length w" by (rule skip_spaces_stay) simp
    with True show ?thesis
      by (simp add: arguments_get_line_def en init lp word_state_fields Let_def)
  next
    case False
    then have "m - 1 < length w" by simp
    then have "w ! (m - 1) \<noteq> CHR '' ''" using w by (auto simp: plain_word_def isspace_def)
    then have "skip_spaces w (length w) (m - 1) = m - 1" by (intro skip_spaces_stay) simp
    with False show ?thesis
      by (simp add: arguments_get_line_def en init lp word_state_fields Let_def)
  qed
qed

lemma help_string_lines_Nil: "help_string_lines mbrlen mbs0 [] m = Some []"
  by (subst help_string_lines.simps) simp

lemma help_string_lines_Cons:
  "c \<noteq> [] \<Longrightarrow> arguments_get_line mbrlen mbs0 c m = (n, len) \<Longrightarrow>
   help_string_lines mbrlen mbs0 (drop n c) m = Some rest \<Longrightarrow>
   help_string_lines mbrlen mbs0 c m = Some (take len c # rest)"
  by (subst help_string_lines.simps) simp



lemma help_string_lines_hang:
  assumes c: "c \<noteq> []" and g: "arguments_get_line mbrlen mbs0 c m = (0, len)"
  shows "help_string_lines mbrlen mbs0 c m = None"
proof (cases "help_string_lines mbrlen mbs0 c m")
  case None
  then show ?thesis .
next
  case (Some y)
  let ?P = "\<lambda>mb m0 c' m' (y :: string list). mb = mbrlen \<and> m0 = mbs0 \<and> c' = c \<and> m' = m \<longrightarrow> False"
  have "?P mbrlen mbs0 c m y"
  proof (rule help_string_lines.raw_induct[where P = ?P, OF _ Some])
    fix hl :: "('a \<Rightarrow> string \<Rightarrow> mbresult \<times> 'a) \<Rightarrow> 'a \<Rightarrow> string \<Rightarrow> nat \<Rightarrow> string list option"
      and mb m0 c' m' y
    assume IH: "\<And>mb m0 c' m' y. hl mb m0 c' m' = Some y \<Longrightarrow> ?P mb m0 c' m' y"
      and body: "(if c' = [] then Some []
                  else case arguments_get_line mb m0 c' m' of
                    (n, len) \<Rightarrow> Option.bind (hl mb m0 (drop n c') m')
                                  (\<lambda>rest. Some (take len c' # rest))) = Some y"
    show "?P mb m0 c' m' y"
    proof (intro impI)
      assume e: "mb = mbrlen \<and> m0 = mbs0 \<and> c' = c \<and> m' = m"
      with body c g obtain rest where "hl mbrlen mbs0 c m = Some rest"
        by (auto simp: bind_eq_Some_conv)
      from IH[OF this] show False by simp
    qed
  qed
  then show ?thesis by simp
qed

lemma get_line_zero:
  "arguments_get_line mbrlen mbs0 c 0 = (skip_spaces c (length c mod 2 ^ 32) 0, 0)"
  by (simp add: arguments_get_line_def Let_def get_line_loop.simps)

lemma skip_spaces_step:
  "r < en \<Longrightarrow> s ! r = CHR '' '' \<Longrightarrow> skip_spaces s en r = skip_spaces s en (r + 1)"
  by (subst skip_spaces.simps) simp

lemma get_line_from_loop:
  assumes "get_line_loop mbrlen s (length s) m
     \<lparr>g_length = 0, g_was_space = False, g_seen_space = False, g_l = 0, g_i = 0,
      g_result = 0, g_mbs = mbs0\<rparr> = st" and "length s < 2 ^ 32"
  shows "arguments_get_line mbrlen mbs0 s m =
     (skip_spaces s (length s) (if g_result st < g_length st then g_length st else g_result st),
      g_length st)"
proof -
  have "length s mod 4294967296 = length s" using assms(2) by simp
  then show ?thesis using assms(1) by (simp add: arguments_get_line_def Let_def)
qed

lemma ex_line_a8:
  "arguments_get_line mbrlen_single () ''abc def ghijklmnop'' 8 = (8, 7)"
proof -
  have lp: "get_line_loop mbrlen_single ''abc def ghijklmnop'' (length ''abc def ghijklmnop'') 8
     \<lparr>g_length = 0, g_was_space = False, g_seen_space = False, g_l = 0, g_i = 0,
      g_result = 0, g_mbs = ()\<rparr> =
     \<lparr>g_length = 7, g_was_space = True, g_seen_space = True, g_l = 8, g_i = 8,
      g_result = 4, g_mbs = ()\<rparr>"
    by (simp add: get_line_loop.simps body_defs mbrlen_single_def isspace_def Let_def)
  have "skip_spaces ''abc def ghijklmnop'' (length ''abc def ghijklmnop'') 7 =
        skip_spaces ''abc def ghijklmnop'' (length ''abc def ghijklmnop'') (7 + 1)"
    by (rule skip_spaces_step) simp_all
  also have "\<dots> = 7 + 1" by (rule skip_spaces_stay) simp
  finally have sk: "skip_spaces ''abc def ghijklmnop'' (length ''abc def ghijklmnop'') 7 = 8"
    by simp
  from get_line_from_loop[OF lp] sk show ?thesis by simp
qed

lemma ex_line_a7:
  "arguments_get_line mbrlen_single () ''abc def ghijklmnop'' 7 = (4, 3)"
proof -
  have lp: "get_line_loop mbrlen_single ''abc def ghijklmnop'' (length ''abc def ghijklmnop'') 7
     \<lparr>g_length = 0, g_was_space = False, g_seen_space = False, g_l = 0, g_i = 0,
      g_result = 0, g_mbs = ()\<rparr> =
     \<lparr>g_length = 3, g_was_space = False, g_seen_space = True, g_l = 7, g_i = 7,
      g_result = 4, g_mbs = ()\<rparr>"
    by (simp add: get_line_loop.simps body_defs mbrlen_single_def isspace_def Let_def)
  have sk: "skip_spaces ''abc def ghijklmnop'' (length ''abc def ghijklmnop'') 4 = 4"
    by (rule skip_spaces_stay) simp
  from get_line_from_loop[OF lp] sk show ?thesis by simp
qed

lemma ex_line_b7:
  "arguments_get_line mbrlen_single () ''def ghijklmnop'' 7 = (4, 3)"
proof -
  have lp: "get_line_loop mbrlen_single ''def ghijklmnop'' (length ''def ghijklmnop'') 7
     \<lparr>g_length = 0, g_was_space = False, g_seen_space = False, g_l = 0, g_i = 0,
      g_result = 0, g_mbs = ()\<rparr> =
     \<lparr>g_length = 3, g_was_space = False, g_seen_space = True, g_l = 7, g_i = 7,
      g_result = 4, g_mbs = ()\<rparr>"
    by (simp add: get_line_loop.simps body_defs mbrlen_single_def isspace_def Let_def)
  have sk: "skip_spaces ''def ghijklmnop'' (length ''def ghijklmnop'') 4 = 4"
    by (rule skip_spaces_stay) simp
  from get_line_from_loop[OF lp] sk show ?thesis by simp
qed

lemma plain_word_ex:
  "plain_word ''ghijklmnop''" "plain_word ''nop''" "plain_word ''mnop''"
  "plain_word ''abcdefghijklmn''" "plain_word ''ghijklmn''" "plain_word ''mn''"
  "plain_word ''abcdefgh''" "plain_word ''abcdefghijklm''" "plain_word ''ghijklm''"
  by (simp_all add: plain_word_def isspace_def)

lemma ex_word_line:
  "arguments_get_line mbrlen_single () ''ghijklmnop'' 8 = (7, 7)"
  "arguments_get_line mbrlen_single () ''nop'' 8 = (3, 3)"
  "arguments_get_line mbrlen_single () ''ghijklmnop'' 7 = (6, 6)"
  "arguments_get_line mbrlen_single () ''mnop'' 7 = (4, 4)"
  "arguments_get_line mbrlen_single () ''abcdefghijklmn'' 7 = (6, 6)"
  "arguments_get_line mbrlen_single () ''ghijklmn'' 7 = (6, 6)"
  "arguments_get_line mbrlen_single () ''mn'' 7 = (2, 2)"
  "arguments_get_line mbrlen_single () ''abcdefgh'' 8 = (8, 8)"
  "arguments_get_line mbrlen_single () ''abcdefghijklm'' 7 = (6, 6)"
  "arguments_get_line mbrlen_single () ''ghijklm'' 7 = (7, 7)"
  by (simp_all add: word_get_line plain_word_ex)

lemma ex_lines_8:
  "help_string_lines mbrlen_single () ''abc def ghijklmnop'' 8 =
     Some [''abc def'', ''ghijklm'', ''nop'']"
proof -
  have 3: "help_string_lines mbrlen_single () ''nop'' 8 = Some [''nop'']"
    using help_string_lines_Cons[OF _ ex_word_line(2), of "[]"]
    by (simp add: help_string_lines_Nil)
  have 2: "help_string_lines mbrlen_single () ''ghijklmnop'' 8 = Some [''ghijklm'', ''nop'']"
    using help_string_lines_Cons[OF _ ex_word_line(1), of "[''nop'']"] 3 by simp
  show ?thesis
    using help_string_lines_Cons[OF _ ex_line_a8, of "[''ghijklm'', ''nop'']"] 2 by simp
qed

lemma ex_lines_7:
  "help_string_lines mbrlen_single () ''abc def ghijklmnop'' 7 =
     Some [''abc'', ''def'', ''ghijkl'', ''mnop'']"
proof -
  have 4: "help_string_lines mbrlen_single () ''mnop'' 7 = Some [''mnop'']"
    using help_string_lines_Cons[OF _ ex_word_line(4), of "[]"]
    by (simp add: help_string_lines_Nil)
  have 3: "help_string_lines mbrlen_single () ''ghijklmnop'' 7 = Some [''ghijkl'', ''mnop'']"
    using help_string_lines_Cons[OF _ ex_word_line(3), of "[''mnop'']"] 4 by simp
  have 2: "help_string_lines mbrlen_single () ''def ghijklmnop'' 7 =
           Some [''def'', ''ghijkl'', ''mnop'']"
    using help_string_lines_Cons[OF _ ex_line_b7, of "[''ghijkl'', ''mnop'']"] 3 by simp
  show ?thesis
    using help_string_lines_Cons[OF _ ex_line_a7, of "[''def'', ''ghijkl'', ''mnop'']"] 2
    by simp
qed



lemma ex_lines_one:
  "help_string_lines mbrlen_single () ''abcdefgh'' 8 = Some [''abcdefgh'']"
  using help_string_lines_Cons[OF _ ex_word_line(8), of "[]"]
  by (simp add: help_string_lines_Nil)

subsection \<open>A word longer than the line\<close>




text \<open>
  At the maximal length 1 a word of more than one character is never printed: the
  cut comes after no character, and the loop of \<^verbatim>\<open>arguments_print_help_string\<close>
  stays where it is.
\<close>

lemma word_line_one:
  assumes "plain_word w" "1 < length w" "length w < 2 ^ 32"
  shows "help_string_lines mbrlen_single () w 1 = None"
proof -
  have ne: "w \<noteq> []" using assms(2) by (cases w) simp_all
  have l0: "0 < length w" using assms(2) by linarith
  have m0: "(0::nat) < 1" by simp
  from word_get_line[OF assms(1) l0 assms(3) m0] assms(2)
  have "arguments_get_line mbrlen_single () w 1 = (0, 0)" by simp
  from help_string_lines_hang[OF ne this] show ?thesis .
qed

subsection \<open>The text of three words\<close>

text \<open>
  C9. For a terminal of 7 columns and no header column,
  \<^verbatim>\<open>arguments_print_help_string\<close> passes the maximal length 8 to
  \<open>arguments_get_line\<close>, and its loop prints the text
  \<^verbatim>\<open>abc def ghijklmnop\<close> as the lines \<^verbatim>\<open>abc def\<close>, \<^verbatim>\<open>ghijklm\<close> and
  \<^verbatim>\<open>nop\<close>.
\<close>

theorem wrap_scenario:
  "print_max_length False 0 7 = 8 \<and>
   arguments_get_line mbrlen_single () ''abc def ghijklmnop'' 8 = (8, 7) \<and>
   help_string_lines mbrlen_single () ''abc def ghijklmnop'' (print_max_length False 0 7) =
     Some [''abc def'', ''ghijklm'', ''nop'']"
proof -
  have "print_max_length False 0 7 = 8" by (simp add: print_max_length_def)
  with ex_lines_8 ex_line_a8 show ?thesis by simp
qed

text \<open>
  With the maximal length 7 passed to \<open>arguments_get_line\<close> itself, the first line
  is \<^verbatim>\<open>abc\<close>, of 3 characters, with the next line at offset 4, and the lines are
  \<^verbatim>\<open>abc\<close>, \<^verbatim>\<open>def\<close>, \<^verbatim>\<open>ghijkl\<close> and \<^verbatim>\<open>mnop\<close>.
\<close>

theorem wrap_scenario_counterexample:
  "arguments_get_line mbrlen_single () ''abc def ghijklmnop'' 7 = (4, 3) \<and>
   help_string_lines mbrlen_single () ''abc def ghijklmnop'' 7 =
     Some [''abc'', ''def'', ''ghijkl'', ''mnop'']"
  using ex_line_a7 ex_lines_7 by simp

subsection \<open>The printer\<close>

lemma terminal_width_zero: "arguments_terminal_width (Some 0) = 4294967295"
  by (simp add: arguments_terminal_width_def u32_def s32_def)

lemma terminal_width_unset: "arguments_terminal_width None = 80"
  by (simp add: arguments_terminal_width_def u32_def)

lemma print_max_length_zero: "print_max_length False 0 4294967295 = 0"
  by (simp add: print_max_length_def)

lemma ex_print_entries:
  "print_entries mbrlen mbs0 hw tw (table_entries [ex_arg n sh k req]) = Some [[]]"
  by (simp add: table_entries_def ex_arg_def arguments_print_help_string_def
      help_string_lines_Nil)

lemma ex_print_help:
  "arguments_print_help (ex_env [ex_arg n sh k req]) = Some [[]]"
  by (simp add: arguments_print_help_def ex_env_def ex_env_at_def Let_def ex_print_entries)

lemma help_string_lines_zero:
  assumes "h \<noteq> []" "hd h \<noteq> CHR '' ''"
  shows "help_string_lines mbrlen mbs0 h 0 = None"
proof -
  have "h ! 0 \<noteq> CHR '' ''" using assms by (cases h) simp_all
  then have "skip_spaces h (length h mod 2 ^ 32) 0 = 0" by (intro skip_spaces_stay) simp
  then have "arguments_get_line mbrlen mbs0 h 0 = (0, 0)" by (simp add: get_line_zero)
  from help_string_lines_hang[OF assms(1) this] show ?thesis .
qed

lemma print_help_hangs:
  assumes "env_columns env = Some 0" "env_help env = Some h" "h \<noteq> []" "hd h \<noteq> CHR '' ''"
  shows "arguments_print_help env = None"
  using assms
  by (simp add: arguments_print_help_def Let_def terminal_width_zero
      arguments_print_help_string_def print_max_length_zero help_string_lines_zero)

lemma ex_print_usage:
  "arguments_print_help (ex_env_at None (Some ''usage'') [ex_arg n sh k req]) =
     Some [[''usage''], []]"
proof -
  have w: "plain_word ''usage''" by (simp add: plain_word_def isspace_def)
  have g: "arguments_get_line mbrlen_single () ''usage'' 81 = (5, 5)"
    using word_get_line[OF w, of 81] by simp
  have l: "help_string_lines mbrlen_single () ''usage'' 81 = Some [''usage'']"
    using help_string_lines_Cons[OF _ g, of "[]"] by (simp add: help_string_lines_Nil)
  have m: "print_max_length False 0 80 = 81" by (simp add: print_max_length_def)
  show ?thesis
    by (simp add: arguments_print_help_def ex_env_at_def Let_def terminal_width_unset
        arguments_print_help_string_def m l ex_print_entries)
qed

section \<open>The scan of the command line\<close>

lemma find_match_Some:
  "find_match schema tok = Some i \<longleftrightarrow>
     i < length schema \<and> matches (schema ! i) tok \<and> (\<forall>j<i. \<not> matches (schema ! j) tok)"
proof (induction schema arbitrary: i)
  case Nil
  then show ?case by simp
next
  case (Cons d ds)
  show ?case
  proof (cases "matches d tok")
    case True
    then show ?thesis by (cases i) auto
  next
    case False
    show ?thesis
    proof (cases i)
      case 0
      with False show ?thesis by auto
    next
      case (Suc m)
      have "(\<forall>j<Suc m. \<not> matches ((d # ds) ! j) tok) \<longleftrightarrow> (\<forall>j<m. \<not> matches (ds ! j) tok)"
        using False by (auto simp: less_Suc_eq_0_disj)
      with False Suc Cons.IH[of m] show ?thesis by auto
    qed
  qed
qed

text \<open>
  C2. For a table whose names are distinct identifiers, the token made of two dashes
  and the name \<open>n\<close> of descriptor \<open>i\<close>, underscores replaced by dashes, compares
  equal to \<open>n\<close> under \<open>arguments_cmp\<close>, and the conditional of the scan takes the
  branch of descriptor \<open>i\<close>, wherever it stands in the table, provided \<open>n\<close> is not
  \<^verbatim>\<open>help\<close> and no descriptor before \<open>i\<close> has the token as its short name. A token
  that is not of that form does not compare equal to \<open>n\<close>.
\<close>

theorem long_form_selects:
  assumes i: "i < length schema"
    and names: "distinct (map name schema)"
    and idents: "\<forall>d \<in> set schema. c_identifier (name d)"
    and nohelp: "name (schema ! i) \<noteq> ''help''"
    and shorts: "\<forall>j<i. short (schema ! j) \<noteq> Some (long_form (name (schema ! i)))"
  shows "arguments_cmp (long_form (name (schema ! i))) (name (schema ! i)) = 0 \<and>
         select_branch schema (long_form (name (schema ! i))) = B_arg i \<and>
         (\<forall>tok. CHR 0x00 \<notin> set tok \<and> tok \<noteq> long_form (name (schema ! i)) \<longrightarrow>
                arguments_cmp tok (name (schema ! i)) \<noteq> 0)"
proof -
  let ?n = "name (schema ! i)"
  let ?tok = "long_form ?n"
  have plain: "\<And>j. j < length schema \<Longrightarrow>
      CHR ''-'' \<notin> set (name (schema ! j)) \<and> CHR 0x00 \<notin> set (name (schema ! j))"
    using idents identifier_plain by (metis nth_mem)
  have n0: "CHR 0x00 \<notin> set ?n" using plain[OF i] by simp
  have t0: "CHR 0x00 \<notin> set ?tok" using n0 by (rule dashed_no_nul)
  have cmp: "arguments_cmp ?tok ?n = 0" using arguments_cmp_zero[OF t0 n0] by simp
  have other: "\<not> matches (schema ! j) ?tok" if j: "j < i" for j
  proof
    assume m: "matches (schema ! j) ?tok"
    have jl: "j < length schema" using j i by simp
    have "short (schema ! j) \<noteq> Some ?tok" using shorts j by simp
    with m have "arguments_cmp ?tok (name (schema ! j)) = 0"
      by (auto simp: matches_def split: option.splits)
    then have "?tok = long_form (name (schema ! j))"
      using arguments_cmp_zero[OF t0, of "name (schema ! j)"] plain[OF jl] by simp
    then have "dashed ?n = dashed (name (schema ! j))" by (simp add: long_form_def)
    from dashed_inj[OF this] have "?n = name (schema ! j)"
      using plain[OF i] plain[OF jl] by blast
    then have "i = j" using nth_eq_iff_index_eq[OF names, of i j] i jl by simp
    with j show False by simp
  qed
  have "find_match schema ?tok = Some i"
    using i cmp other by (simp add: find_match_Some matches_def)
  moreover have "?tok \<noteq> ''--help''" using nohelp by (simp add: long_form_help)
  moreover have "?tok \<noteq> ''-h''" by (simp add: long_form_def)
  ultimately have sel: "select_branch schema ?tok = B_arg i" by (simp add: select_branch_def)
  have "\<forall>tok. CHR 0x00 \<notin> set tok \<and> tok \<noteq> ?tok \<longrightarrow> arguments_cmp tok ?n \<noteq> 0"
    using arguments_cmp_zero[OF _ n0] by blast
  with cmp sel show ?thesis by blast
qed

text \<open>
  The theorem at a table of two descriptors, for the second one.
\<close>

theorem long_form_selects_witness:
  "distinct (map name [ex_arg ''count'' (Some ''-c'') 1 True, ex_arg ''dry_run'' None 0 False]) \<and>
   c_identifier ''count'' \<and> c_identifier ''dry_run'' \<and>
   arguments_cmp ''--dry-run'' ''dry_run'' = 0 \<and>
   select_branch [ex_arg ''count'' (Some ''-c'') 1 True, ex_arg ''dry_run'' None 0 False]
     ''--dry-run'' = B_arg 1 \<and>
   arguments_cmp ''--dry_run'' ''dry_run'' \<noteq> 0"
proof -
  let ?schema = "[ex_arg ''count'' (Some ''-c'') 1 True, ex_arg ''dry_run'' None 0 False]"
  have h1: "1 < length ?schema" by simp
  have h2: "distinct (map name ?schema)" by (simp add: ex_arg_def)
  have c1: "c_identifier ''count''" by (simp add: c_identifier_def ident_char_def)
  have c2: "c_identifier ''dry_run''" by (simp add: c_identifier_def ident_char_def)
  have h3: "\<forall>d \<in> set ?schema. c_identifier (name d)" using c1 c2 by (simp add: ex_arg_def)
  have h4: "name (?schema ! 1) \<noteq> ''help''" by (simp add: ex_arg_def)
  have h5: "\<forall>j<1. short (?schema ! j) \<noteq> Some (long_form (name (?schema ! 1)))"
    by (simp add: ex_arg_def long_form_def dashed_def)
  have lf: "long_form ''dry_run'' = ''--dry-run''"
    by (simp add: long_form_def dashed_def)
  have nm: "name (?schema ! 1) = ''dry_run''" by (simp add: ex_arg_def)
  note t = long_form_selects[OF h1 h2 h3 h4 h5, unfolded nm lf]
  from t have a: "arguments_cmp ''--dry-run'' ''dry_run'' = 0"
    by (rule conjunct1)
  from t have b: "select_branch ?schema ''--dry-run'' = B_arg 1"
    by (rule conjunct1[OF conjunct2])
  from t have c: "\<forall>tok. CHR 0x00 \<notin> set tok \<and> tok \<noteq> ''--dry-run'' \<longrightarrow>
      arguments_cmp tok ''dry_run'' \<noteq> 0"
    by (rule conjunct2[OF conjunct2])
  have d: "arguments_cmp ''--dry_run'' ''dry_run'' \<noteq> 0"
    using c[rule_format, of "''--dry_run''"] by simp
  show ?thesis by (intro conjI h2 c1 c2 a b d)
qed

text \<open>
  A descriptor named \<^verbatim>\<open>help\<close> is never selected by its long argument: the test
  for the help flags comes first, and \<open>arguments_read\<close> returns \<open>AC_HELP\<close> with
  the descriptor still absent.
\<close>

theorem long_form_selects_counterexample:
  "distinct (map name [ex_arg ''help'' None 0 False]) \<and> c_identifier ''help'' \<and>
   long_form ''help'' = ''--help'' \<and>
   select_branch [ex_arg ''help'' None 0 False] ''--help'' = B_help \<and>
   arguments_read (ex_env [ex_arg ''help'' None 0 False])
     [ex_arg ''help'' None 0 False] [''prog'', ''--help'']
     (arguments_initialize 0 [ex_arg ''help'' None 0 False]) 1 =
   Some (AC_HELP,
     [\<lparr>present = False, initialized = False, value_strings = None,
       value_strings_length = 0, val = 0\<rparr>], 1)"
proof -
  have "c_identifier ''help''" by (simp add: c_identifier_def ident_char_def)
  moreover have "long_form ''help'' = ''--help''" by (simp add: long_form_def dashed_def)
  moreover have s: "select_branch [ex_arg ''help'' None 0 False] ''--help'' = B_help"
    by (simp add: select_branch_def)
  moreover have "arguments_read (ex_env [ex_arg ''help'' None 0 False])
                  [ex_arg ''help'' None 0 False] [''prog'', ''--help'']
     (arguments_initialize 0 [ex_arg ''help'' None 0 False]) 1 =
     Some (AC_HELP, [\<lparr>present = False, initialized = False, value_strings = None,
       value_strings_length = 0, val = 0\<rparr>], 1)"
    unfolding arguments_read_def
    by (subst read_loop.simps)
       (simp add: read_step_def s arguments_initialize_def ex_print_help)
  ultimately show ?thesis by (simp add: ex_arg_def)
qed

lemma read_loop_stop:
  "snd st < int (length argv) \<Longrightarrow> read_step env schema argv st = Return r \<Longrightarrow>
   read_loop env schema argv st = Some r"
  by (subst read_loop.simps) simp

lemma read_loop_continue:
  "snd st < int (length argv) \<Longrightarrow> read_step env schema argv st = Continue st' \<Longrightarrow>
   read_loop env schema argv st = read_loop env schema argv st'"
  by (subst read_loop.simps) simp

lemma read_loop_end:
  "\<not> snd st < int (length argv) \<Longrightarrow> read_loop env schema argv st = Some (AC_OK, fst st, snd st)"
  by (subst read_loop.simps) simp

lemma read_loop_hang:
  "snd st < int (length argv) \<Longrightarrow> read_step env schema argv st = Hang \<Longrightarrow>
   read_loop env schema argv st = None"
  by (subst read_loop.simps) simp

lemma scan_reaches_loop:
  "scan_reaches env schema argv st0 st \<Longrightarrow> read_loop env schema argv st0 = read_loop env schema argv st"
  by (induction rule: scan_reaches.induct) (auto simp: read_loop_continue)

lemma scan_reaches_front:
  "scan_reaches env schema argv st1 st2 \<Longrightarrow> snd st < int (length argv) \<Longrightarrow>
   read_step env schema argv st = Continue st1 \<Longrightarrow> scan_reaches env schema argv st st2"
proof (induction rule: scan_reaches.induct)
  case (here env schema argv st1)
  show ?case by (rule scan_reaches.step[OF scan_reaches.here here(1) here(2)])
next
  case (step env schema argv st1 sta stb)
  show ?case by (rule scan_reaches.step[OF step.IH[OF step.prems] step.hyps(2) step.hyps(3)])
qed

lemma read_step_Continue:
  "read_step env schema argv (args, j) = Continue st' \<Longrightarrow>
   \<exists>i. select_branch schema (argv ! nat j) = B_arg i \<and>
       u32 (u32 j + uint (value_count (schema ! i))) < u32 (int (length argv)) \<and>
       st' = (args[i := (args ! i)\<lparr>present := True,
                 value_strings_length := value_count (schema ! i),
                 value_strings := Some (nat (j + 1))\<rparr>],
              s32 (u32 (u32 (j + 1) + uint (value_count (schema ! i)))))"
  by (auto simp: read_step_def Let_def split: branch.splits if_splits option.splits)

lemma read_step_error:
  "read_step env schema argv (args, j) = Return (AC_ERROR, args', j') \<Longrightarrow>
   \<exists>i. select_branch schema (argv ! nat j) = B_arg i \<and> j' = j \<and>
       \<not> u32 (u32 j + uint (value_count (schema ! i))) < u32 (int (length argv)) \<and>
       args' = args[i := (args ! i)\<lparr>present := True,
                 value_strings_length := value_count (schema ! i)\<rparr>]"
  by (auto simp: read_step_def Let_def split: branch.splits if_splits option.splits)

lemma next_index:
  fixes j k n :: int
  assumes "0 \<le> j" "0 \<le> k" "n < 2 ^ 31" "u32 (u32 j + k) < u32 n" "0 \<le> n"
  shows "s32 (u32 (u32 (j + 1) + k)) = (j + k) mod 2 ^ 32 + 1"
    and "(j + k) mod 2 ^ 32 < n"
proof -
  let ?m = "(j + k) mod 2 ^ 32"
  have un: "u32 n = n" using assms by (simp add: u32_def)
  have m: "u32 (u32 j + k) = ?m" by (simp add: u32_def mod_simps)
  with assms un show lt: "?m < n" by simp
  have m0: "0 \<le> ?m" by simp
  have "u32 (u32 (j + 1) + k) = (?m + 1) mod 2 ^ 32"
    by (simp add: u32_def mod_simps add.commute add.left_commute)
  also have "\<dots> = ?m + 1" using lt m0 assms(3) by simp
  finally have "u32 (u32 (j + 1) + k) = ?m + 1" .
  then show "s32 (u32 (u32 (j + 1) + k)) = ?m + 1"
    using lt m0 assms(3) by (simp add: s32_def)
qed

lemma scan_reaches_pos:
  assumes "scan_reaches env schema argv st0 st" "1 \<le> snd st0" "length argv < 2 ^ 31"
  shows "1 \<le> snd st"
  using assms
proof (induction rule: scan_reaches.induct)
  case (here env schema argv st)
  then show ?case by simp
next
  case (step env schema argv st st1 st2)
  then have ih: "1 \<le> snd st1" by auto
  obtain args j where st1: "st1 = (args, j)" by (cases st1)
  from read_step_Continue[OF step.hyps(3)[unfolded st1]] obtain i where
    c: "u32 (u32 j + uint (value_count (schema ! i))) < u32 (int (length argv))"
    and st2: "snd st2 = s32 (u32 (u32 (j + 1) + uint (value_count (schema ! i))))" by auto
  have "s32 (u32 (u32 (j + 1) + uint (value_count (schema ! i)))) =
        (j + uint (value_count (schema ! i))) mod 2 ^ 32 + 1"
    using ih st1 step.prems c by (intro next_index) auto
  then show ?case by (simp add: st2)
qed

lemma scan_reaches_length:
  "scan_reaches env schema argv st0 st \<Longrightarrow> length (fst st) = length (fst st0)"
proof (induction rule: scan_reaches.induct)
  case (here env schema argv st)
  then show ?case by simp
next
  case (step env schema argv st st1 st2)
  obtain args j where st1: "st1 = (args, j)" by (cases st1)
  from read_step_Continue[OF step.hyps(3)[unfolded st1]] step.IH st1 show ?case by auto
qed

lemma scan_reaches_absent:
  assumes "scan_reaches env schema argv st0 st"
    and "\<forall>a \<in> set (fst st0). \<not> present a \<longrightarrow> value_strings a = None"
  shows "\<forall>a \<in> set (fst st). \<not> present a \<longrightarrow> value_strings a = None"
  using assms
proof (induction rule: scan_reaches.induct)
  case (here env schema argv st)
  then show ?case by simp
next
  case (step env schema argv st st1 st2)
  obtain args j where st1: "st1 = (args, j)" by (cases st1)
  from read_step_Continue[OF step.hyps(3)[unfolded st1]] obtain i where
    st2: "fst st2 = args[i := (args ! i)\<lparr>present := True,
                 value_strings_length := value_count (schema ! i),
                 value_strings := Some (nat (j + 1))\<rparr>]" by auto
  have "\<forall>a \<in> set args. \<not> present a \<longrightarrow> value_strings a = None"
    using step.IH[OF step.prems] st1 by simp
  then show ?case unfolding st2 by (auto dest!: set_update_subset_insert[THEN subsetD])
qed

lemma u32_id: "0 \<le> x \<Longrightarrow> x < 2 ^ 32 \<Longrightarrow> u32 x = x"
  by (simp add: u32_def)

lemma s32_id: "0 \<le> x \<Longrightarrow> x < 2 ^ 31 \<Longrightarrow> s32 x = x"
  by (simp add: s32_def)

lemma map_update_same: "(map f xs)[i := f (xs ! i)] = map f xs"
proof (cases "i < length xs")
  case True
  then have "f (xs ! i) = map f xs ! i" by simp
  then show ?thesis by (simp only: list_update_id)
next
  case False
  then have "length (map f xs) \<le> i" by simp
  then show ?thesis by (rule list_update_beyond)
qed

lemma read_step_Return:
  "read_step env schema argv (args, j) = Return (s, args', j') \<Longrightarrow>
   j' = j \<and> map initialized args' = map initialized args"
  by (auto simp: read_step_def Let_def map_update map_update_same
      split: branch.splits if_splits option.splits)

lemma read_loop_result:
  fixes env :: "'m environment" and schema :: "'v descriptor list"
  assumes rl: "read_loop env schema argv st = Some (s, args', j')"
  shows "\<exists>args. scan_reaches env schema argv st (args, j') \<and>
          (if j' < int (length argv)
           then read_step env schema argv (args, j') = Return (s, args', j')
           else s = AC_OK \<and> args' = args)"
proof -
  let ?P = "\<lambda>(env :: 'm environment) (schema :: 'v descriptor list) argv st y.
       \<forall>s args' j'. y = (s, args', j') \<longrightarrow>
       (\<exists>args. scan_reaches env schema argv st (args, j') \<and>
          (if j' < int (length argv)
           then read_step env schema argv (args, j') = Return (s, args', j')
           else s = AC_OK \<and> args' = args))"
  have "?P env schema argv st (s, args', j')"
  proof (rule read_loop.raw_induct[where P = ?P, OF _ rl])
    fix rl' :: "'m environment \<Rightarrow> 'v descriptor list \<Rightarrow> string list \<Rightarrow>
                'v argument list \<times> int \<Rightarrow> (status \<times> 'v argument list \<times> int) option"
      and env schema argv st y
    assume IH: "\<And>env schema argv st y. rl' env schema argv st = Some y \<Longrightarrow>
                  ?P env schema argv st y"
      and body: "(if snd st < int (length argv)
                  then case read_step env schema argv st of
                         Return r \<Rightarrow> Some r
                       | Continue st' \<Rightarrow> rl' env schema argv st'
                       | Hang \<Rightarrow> None
                  else Some (AC_OK, fst st, snd st)) = Some y"
    show "?P env schema argv st y"
    proof (intro allI impI)
      fix s args' j'
      assume y: "y = (s, args', j')"
      obtain args j where st: "st = (args, j)" by (cases st)
      show "\<exists>args. scan_reaches env schema argv st (args, j') \<and>
          (if j' < int (length argv)
           then read_step env schema argv (args, j') = Return (s, args', j')
           else s = AC_OK \<and> args' = args)"
      proof (cases "snd st < int (length argv)")
        case False
        with body y st have "s = AC_OK" "args' = args" "j' = j" by auto
        with False st scan_reaches.here[of env schema argv st] show ?thesis by auto
      next
        case True
        show ?thesis
        proof (cases "read_step env schema argv st")
          case (Return r)
          with True body y have r: "read_step env schema argv st = Return (s, args', j')"
            by simp
          from read_step_Return[OF r[unfolded st]] have "j' = j" by blast
          with r st True scan_reaches.here[of env schema argv st] show ?thesis by auto
        next
          case (Continue st1)
          with True body have "rl' env schema argv st1 = Some y" by simp
          from IH[OF this] y obtain args where
            a: "scan_reaches env schema argv st1 (args, j')"
               "if j' < int (length argv)
                then read_step env schema argv (args, j') = Return (s, args', j')
                else s = AC_OK \<and> args' = args" by blast
          from scan_reaches_front[OF a(1) True Continue] a(2) show ?thesis by blast
        next
          case Hang
          with True body show ?thesis by simp
        qed
      qed
    qed
  qed
  then show ?thesis by simp
qed

lemma read_loop_error:
  assumes rl: "read_loop env schema argv st = Some (AC_ERROR, args', j')"
  shows "\<exists>args. scan_reaches env schema argv st (args, j') \<and> j' < int (length argv) \<and>
          read_step env schema argv (args, j') = Return (AC_ERROR, args', j')"
proof -
  from read_loop_result[OF rl] obtain args where
    a: "scan_reaches env schema argv st (args, j')"
    and b: "if j' < int (length argv)
            then read_step env schema argv (args, j') = Return (AC_ERROR, args', j')
            else AC_ERROR = AC_OK \<and> args' = args" by blast
  from b have c: "j' < int (length argv)" by (auto split: if_splits)
  with b have "read_step env schema argv (args, j') = Return (AC_ERROR, args', j')" by simp
  with a c show ?thesis by blast
qed

lemma select_branch_arg:
  "select_branch schema tok = B_arg i \<Longrightarrow> i < length schema \<and> matches (schema ! i) tok"
  by (auto simp: select_branch_def find_match_Some split: if_splits option.splits)

lemma initialize_absent:
  "\<forall>a \<in> set (arguments_initialize zero schema). \<not> present a \<longrightarrow> value_strings a = None"
  by (simp add: arguments_initialize_def)

lemma initialize_length: "length (arguments_initialize zero schema) = length schema"
  by (simp add: arguments_initialize_def)

lemma read_loop_diverges:
  fixes env :: "'m environment" and schema :: "'v descriptor list"
  assumes fp: "read_step env schema argv st = Continue st" and c: "snd st < int (length argv)"
  shows "read_loop env schema argv st = None"
proof (cases "read_loop env schema argv st")
  case None
  then show ?thesis .
next
  case (Some y)
  let ?P = "\<lambda>(e :: 'm environment) (s :: 'v descriptor list) a t
              (y :: status \<times> 'v argument list \<times> int).
              e = env \<and> s = schema \<and> a = argv \<and> t = st \<longrightarrow> False"
  have "?P env schema argv st y"
  proof (rule read_loop.raw_induct[where P = ?P, OF _ Some])
    fix rl' :: "'m environment \<Rightarrow> 'v descriptor list \<Rightarrow> string list \<Rightarrow>
                'v argument list \<times> int \<Rightarrow> (status \<times> 'v argument list \<times> int) option"
      and e s a t y
    assume IH: "\<And>e s a t y. rl' e s a t = Some y \<Longrightarrow> ?P e s a t y"
      and body: "(if snd t < int (length a)
                  then case read_step e s a t of
                         Return r \<Rightarrow> Some r
                       | Continue st' \<Rightarrow> rl' e s a st'
                       | Hang \<Rightarrow> None
                  else Some (AC_OK, fst t, snd t)) = Some y"
    show "?P e s a t y"
    proof (intro impI)
      assume eq: "e = env \<and> s = schema \<and> a = argv \<and> t = st"
      with body fp c have "rl' env schema argv st = Some y" by simp
      from IH[OF this] show False by simp
    qed
  qed
  then show ?thesis by simp
qed

subsection \<open>Evaluation at the example tables\<close>

lemma ex_select_short:
  "select_branch [ex_arg ''count'' (Some ''-c'') 1 True] ''-c'' = B_arg 0"
  by (simp add: select_branch_def matches_def ex_arg_def)

lemma ex_initialize:
  "arguments_initialize 0 [ex_arg n sh k req] =
     [\<lparr>present = False, initialized = False, value_strings = None,
       value_strings_length = 0, val = 0\<rparr>]"
  by (simp add: arguments_initialize_def)

lemma ex_value_count: "value_count (ex_arg n sh k req) = k"
  by (simp add: ex_arg_def)

lemma ex_select_long:
  "select_branch [ex_arg ''x'' None k req] ''--x'' = B_arg 0"
  by (simp add: select_branch_def matches_def ex_arg_def arguments_cmp_def deref_def
      char_val_def)

lemma ex_step_short:
  "j = 1 \<or> j = 3 \<Longrightarrow> argv ! nat j = ''-c'' \<Longrightarrow> j + 1 < int (length argv) \<Longrightarrow>
   length argv < 10 \<Longrightarrow>
   read_step env [ex_arg ''count'' (Some ''-c'') 1 True] argv ([a], j) =
     Continue ([a\<lparr>present := True, value_strings_length := 1,
             value_strings := Some (nat (j + 1))\<rparr>], j + 2)"
  by (auto simp: read_step_def ex_select_short ex_value_count u32_def s32_def)

lemma ex_read_error:
  "arguments_read (ex_env [ex_arg ''count'' (Some ''-c'') 1 True])
    [ex_arg ''count'' (Some ''-c'') 1 True] [''prog'', ''-c'']
     (arguments_initialize 0 [ex_arg ''count'' (Some ''-c'') 1 True]) 1 =
   Some (AC_ERROR, [\<lparr>present = True, initialized = False, value_strings = None,
            value_strings_length = 1, val = 0\<rparr>], 1)"
  unfolding arguments_read_def
  by (subst read_loop.simps)
     (simp add: read_step_def ex_select_short ex_value_count ex_initialize u32_def s32_def)

subsection \<open>The values of a matched descriptor\<close>

text \<open>
  Let the scan of \<open>arguments_read\<close> be at index \<open>j\<close> of a command line of
  fewer than \<open>2 ^ 31\<close> strings, let the token there select descriptor \<open>i\<close>, of
  arity \<open>k\<close>, and let \<open>j + k\<close> be below \<open>2 ^ 32\<close>, so that the sum in the test
  of the pass does not wrap. If \<open>j + k < argc\<close>, the pass succeeds: the
  descriptor is present, \<open>value_strings\<close> points at the token after the flag, the
  strings it gives are exactly the \<open>k\<close> tokens that follow the flag, and the scan
  goes on at \<open>j + 1 + k\<close>. Otherwise \<open>arguments_read\<close> returns \<open>AC_ERROR\<close>
  with \<^verbatim>\<open>*nextarg\<close> equal to \<open>j\<close>.
\<close>

theorem read_arity:
  assumes reach: "scan_reaches env schema argv (args0, if n0 < 1 then 1 else n0) (args, j)"
    and j: "j < int (length argv)"
    and argc: "length argv < 2 ^ 31"
    and sel: "select_branch schema (argv ! nat j) = B_arg i"
    and nowrap: "j + uint (value_count (schema ! i)) < 2 ^ 32"
  shows "(j + uint (value_count (schema ! i)) < int (length argv) \<longrightarrow>
            read_step env schema argv (args, j) =
              Continue (args[i := (args ! i)\<lparr>present := True,
                     value_strings_length := value_count (schema ! i),
                     value_strings := Some (nat j + 1)\<rparr>],
                   j + 1 + uint (value_count (schema ! i))) \<and>
            captured argv ((args ! i)\<lparr>present := True,
                     value_strings_length := value_count (schema ! i),
                     value_strings := Some (nat j + 1)\<rparr>) =
              take (unat (value_count (schema ! i))) (drop (nat j + 1) argv) \<and>
            length (take (unat (value_count (schema ! i))) (drop (nat j + 1) argv)) =
              unat (value_count (schema ! i))) \<and>
         (\<not> j + uint (value_count (schema ! i)) < int (length argv) \<longrightarrow>
            arguments_read env schema argv args0 n0 =
              Some (AC_ERROR,
                    args[i := (args ! i)\<lparr>present := True,
                      value_strings_length := value_count (schema ! i)\<rparr>], j))"
proof -
  let ?k = "value_count (schema ! i)"
  have j1: "1 \<le> j" using scan_reaches_pos[OF reach _ argc] by simp
  have k0: "0 \<le> uint ?k" by simp
  have n31: "int (length argv) < 2 ^ 31" using argc by simp
  have pw: "(2::int) ^ 31 = 2147483648" "(2::int) ^ 32 = 4294967296" by simp_all
  have uj: "u32 j = j" using j1 j argc by (simp add: u32_def)
  have un: "u32 (int (length argv)) = int (length argv)" using argc by (simp add: u32_def)
  have ujk: "u32 (j + uint ?k) = j + uint ?k" using j1 k0 nowrap by (simp add: u32_def)
  have cond: "u32 (u32 j + uint ?k) < u32 (int (length argv)) \<longleftrightarrow>
              j + uint ?k < int (length argv)"
    by (simp add: uj un ujk)
  show ?thesis
  proof (intro conjI impI)
    assume lt: "j + uint ?k < int (length argv)"
    have b: "0 \<le> j + 1 + uint ?k" "j + 1 + uint ?k < 2 ^ 31" "0 \<le> j + 1" "j + 1 < 2 ^ 32"
      using j1 k0 lt n31 pw by linarith+
    have nx: "s32 (u32 (u32 (j + 1) + uint ?k)) = j + 1 + uint ?k"
      using b by (simp add: u32_id s32_id)
    have nj: "nat (j + 1) = nat j + 1" using j1 by simp
    show "read_step env schema argv (args, j) =
              Continue (args[i := (args ! i)\<lparr>present := True,
                     value_strings_length := ?k, value_strings := Some (nat j + 1)\<rparr>],
                   j + 1 + uint ?k)"
      using lt by (simp add: read_step_def sel cond nx nj)
    show "captured argv ((args ! i)\<lparr>present := True,
                     value_strings_length := ?k, value_strings := Some (nat j + 1)\<rparr>) =
              take (unat ?k) (drop (nat j + 1) argv)"
      by (simp add: captured_def)
    have "int (nat j) = j" using j1 by simp
    moreover have "int (unat ?k) = uint ?k" by simp
    ultimately have "nat j + 1 + unat ?k \<le> length argv"
      using lt by linarith
    then show "length (take (unat ?k) (drop (nat j + 1) argv)) = unat ?k" by simp
  next
    assume ge: "\<not> j + uint ?k < int (length argv)"
    have "read_step env schema argv (args, j) =
            Return (AC_ERROR, args[i := (args ! i)\<lparr>present := True,
                      value_strings_length := ?k\<rparr>], j)"
      using ge by (simp add: read_step_def sel cond)
    then have "read_loop env schema argv (args, j) =
            Some (AC_ERROR, args[i := (args ! i)\<lparr>present := True,
                      value_strings_length := ?k\<rparr>], j)"
      using j by (intro read_loop_stop) auto
    with scan_reaches_loop[OF reach] show "arguments_read env schema argv args0 n0 =
              Some (AC_ERROR, args[i := (args ! i)\<lparr>present := True,
                      value_strings_length := ?k\<rparr>], j)"
      by (simp add: arguments_read_def)
  qed
qed

text \<open>
  The theorem at a descriptor of arity 1: with one token after the flag, and with
  none.
\<close>

theorem read_arity_witness:
  "read_step (ex_env [ex_arg ''count'' (Some ''-c'') 1 True])
    [ex_arg ''count'' (Some ''-c'') 1 True] [''prog'', ''-c'', ''5'']
     (arguments_initialize 0 [ex_arg ''count'' (Some ''-c'') 1 True], 1) =
     Continue ([\<lparr>present = True, initialized = False, value_strings = Some 2,
            value_strings_length = 1, val = 0\<rparr>], 3) \<and>
   captured [''prog'', ''-c'', ''5'']
     \<lparr>present = True, initialized = False, value_strings = Some 2,
       value_strings_length = 1, val = 0::nat\<rparr> = [''5''] \<and>
   arguments_read (ex_env [ex_arg ''count'' (Some ''-c'') 1 True])
     [ex_arg ''count'' (Some ''-c'') 1 True] [''prog'', ''-c'']
     (arguments_initialize 0 [ex_arg ''count'' (Some ''-c'') 1 True]) 1 =
     Some (AC_ERROR, [\<lparr>present = True, initialized = False, value_strings = None,
            value_strings_length = 1, val = 0\<rparr>], 1)"
proof -
  let ?S = "[ex_arg ''count'' (Some ''-c'') 1 True]"
  let ?init = "arguments_initialize 0 ?S"
  have r3: "scan_reaches (ex_env ?S)
             ?S [''prog'', ''-c'', ''5''] (?init, if (1::int) < 1 then 1 else 1) (?init, 1)"
    by (simp add: scan_reaches.here)
  have r2: "scan_reaches (ex_env ?S)
             ?S [''prog'', ''-c''] (?init, if (1::int) < 1 then 1 else 1) (?init, 1)"
    by (simp add: scan_reaches.here)
  have s3: "select_branch ?S ([''prog'', ''-c'', ''5''] ! nat 1) = B_arg 0"
    by (simp add: ex_select_short)
  have s2: "select_branch ?S ([''prog'', ''-c''] ! nat 1) = B_arg 0"
    by (simp add: ex_select_short)
  have w: "1 + uint (value_count (?S ! 0)) < 2 ^ 32" by (simp add: ex_value_count)
  have a: "1 + uint (value_count (?S ! 0)) < int (length [''prog'', ''-c'', ''5''])"
    by (simp add: ex_value_count)
  have b: "\<not> 1 + uint (value_count (?S ! 0)) < int (length [''prog'', ''-c''])"
    by (simp add: ex_value_count)
  have j3: "(1::int) < int (length [''prog'', ''-c'', ''5''])" by simp
  have j2: "(1::int) < int (length [''prog'', ''-c''])" by simp
  have n3: "length [''prog'', ''-c'', ''5''] < 2 ^ 31" by simp
  have n2: "length [''prog'', ''-c''] < 2 ^ 31" by simp
  from read_arity[OF r3 j3 n3 s3 w] a
  have "read_step (ex_env ?S) ?S [''prog'', ''-c'', ''5''] (?init, 1) =
     Continue ([\<lparr>present = True, initialized = False, value_strings = Some 2,
            value_strings_length = 1, val = 0\<rparr>], 3)"
    and "captured [''prog'', ''-c'', ''5'']
     \<lparr>present = True, initialized = False, value_strings = Some 2,
       value_strings_length = 1, val = 0::nat\<rparr> = [''5'']"
    by (simp_all add: ex_initialize ex_value_count numeral_2_eq_2)
  moreover from read_arity[OF r2 j2 n2 s2 w] b
  have "arguments_read (ex_env ?S) ?S [''prog'', ''-c''] ?init 1 =
     Some (AC_ERROR, [\<lparr>present = True, initialized = False, value_strings = None,
            value_strings_length = 1, val = 0\<rparr>], 1)"
    by (simp add: ex_initialize ex_value_count)
  ultimately show ?thesis by blast
qed

text \<open>
  C1. The test of the pass, \<^verbatim>\<open>*nextarg + value_strings_length < argc\<close>, is
  computed in \<^verbatim>\<open>unsigned int\<close> and nothing checks the sum. For a descriptor of
  arity \<open>2 ^ 32 - 1\<close> and the command line \<^verbatim>\<open>prog --x\<close>, the flag is matched
  at index 1 and no token follows it, so that \<open>j + k < argc\<close> is false; but
  \<open>1 + k\<close> wraps to 0, the pass takes the branch of success, with
  \<open>value_strings\<close> past the end of \<^verbatim>\<open>argv\<close>, \<^verbatim>\<open>*nextarg\<close> comes back to
  1, and \<open>arguments_read\<close> does not return \<open>AC_ERROR\<close>: it never returns.
\<close>

theorem read_arity_overflow:
  "select_branch [ex_arg ''x'' None 4294967295 False] ([''prog'', ''--x''] ! 1) = B_arg 0 \<and>
   \<not> 1 + uint (value_count (ex_arg ''x'' None 4294967295 False))
       < int (length [''prog'', ''--x'']) \<and>
   read_step (ex_env [ex_arg ''x'' None 4294967295 False])
     [ex_arg ''x'' None 4294967295 False] [''prog'', ''--x'']
     (arguments_initialize 0 [ex_arg ''x'' None 4294967295 False], 1) =
     Continue ([\<lparr>present = True, initialized = False, value_strings = Some 2,
            value_strings_length = 4294967295, val = 0\<rparr>], 1) \<and>
   arguments_read (ex_env [ex_arg ''x'' None 4294967295 False])
     [ex_arg ''x'' None 4294967295 False] [''prog'', ''--x'']
     (arguments_initialize 0 [ex_arg ''x'' None 4294967295 False]) 1 = None"
proof -
  let ?S = "[ex_arg ''x'' None 4294967295 False]"
  let ?argv = "[''prog'', ''--x'']"
  let ?a = "\<lparr>present = True, initialized = False, value_strings = Some 2,
            value_strings_length = 4294967295 :: 32 word, val = 0::nat\<rparr>"
  have sel: "select_branch ?S (?argv ! 1) = B_arg 0" by (simp add: ex_select_long)
  have far: "\<not> 1 + uint (value_count (ex_arg ''x'' None 4294967295 False))
       < int (length ?argv)"
    by (simp add: ex_value_count)
  have st0: "read_step (ex_env ?S) ?S ?argv (arguments_initialize 0 ?S, 1) = Continue ([?a], 1)"
    by (simp add: read_step_def ex_select_long ex_initialize ex_value_count u32_def s32_def)
  have st1: "read_step (ex_env ?S) ?S ?argv ([?a], 1) = Continue ([?a], 1)"
    by (simp add: read_step_def ex_select_long ex_value_count u32_def s32_def)
  have "read_loop (ex_env ?S) ?S ?argv ([?a], 1) = None"
    by (rule read_loop_diverges[OF st1]) simp
  then have "read_loop (ex_env ?S) ?S ?argv (arguments_initialize 0 ?S, 1) = None"
    using read_loop_continue[OF _ st0] by simp
  then have "arguments_read (ex_env ?S) ?S ?argv (arguments_initialize 0 ?S) 1 = None"
    by (simp add: arguments_read_def)
  with sel far st0 show ?thesis by blast
qed

subsection \<open>The struct after an error\<close>

text \<open>
  C10. When \<open>arguments_read\<close>, called on the zeroed struct, returns \<open>AC_ERROR\<close>,
  the scan had reached the returned index \<open>j'\<close> with some struct \<open>args\<close>, the
  token there selects a descriptor \<open>i\<close>, and the returned struct differs from
  \<open>args\<close> in the record of \<open>i\<close> only: \<open>present\<close> is set,
  \<open>value_strings_length\<close> is the arity, and \<open>value_strings\<close> is what it was before
  the pass, which is the null pointer if the descriptor had not been matched before.
\<close>

theorem read_error_record:
  assumes err: "arguments_read env schema argv (arguments_initialize zero schema) n0 =
                  Some (AC_ERROR, args', j')"
  shows "\<exists>args i.
           scan_reaches env schema argv
             (arguments_initialize zero schema, if n0 < 1 then 1 else n0) (args, j') \<and>
           j' < int (length argv) \<and>
           select_branch schema (argv ! nat j') = B_arg i \<and> i < length args' \<and>
           present (args' ! i) \<and>
           value_strings_length (args' ! i) = value_count (schema ! i) \<and>
           value_strings (args' ! i) = value_strings (args ! i) \<and>
           (\<not> present (args ! i) \<longrightarrow> value_strings (args' ! i) = None) \<and>
           (\<forall>m. m \<noteq> i \<longrightarrow> args' ! m = args ! m)"
proof -
  let ?st0 = "(arguments_initialize zero schema, if n0 < 1 then 1 else n0)"
  from read_loop_error[OF err[unfolded arguments_read_def]] obtain args where
    reach: "scan_reaches env schema argv ?st0 (args, j')" and j: "j' < int (length argv)"
    and step: "read_step env schema argv (args, j') = Return (AC_ERROR, args', j')" by blast
  from read_step_error[OF step] obtain i where
    sel: "select_branch schema (argv ! nat j') = B_arg i"
    and args': "args' = args[i := (args ! i)\<lparr>present := True,
                 value_strings_length := value_count (schema ! i)\<rparr>]" by blast
  have len: "length args = length schema"
    using scan_reaches_length[OF reach] by (simp add: initialize_length)
  have i: "i < length args" using select_branch_arg[OF sel] len by simp
  have "\<forall>a \<in> set args. \<not> present a \<longrightarrow> value_strings a = None"
    using scan_reaches_absent[OF reach] initialize_absent[of zero schema] by simp
  then have absent: "\<not> present (args ! i) \<longrightarrow> value_strings (args ! i) = None"
    using i by simp
  have "i < length args'" "present (args' ! i)"
    "value_strings_length (args' ! i) = value_count (schema ! i)"
    "value_strings (args' ! i) = value_strings (args ! i)"
    "\<not> present (args ! i) \<longrightarrow> value_strings (args' ! i) = None"
    "\<forall>m. m \<noteq> i \<longrightarrow> args' ! m = args ! m"
    using i absent by (simp_all add: args')
  with reach j sel show ?thesis by blast
qed

text \<open>
  The theorem at a command line that ends with the flag of a descriptor of arity 1.
\<close>

theorem read_error_record_witness:
  "\<exists>args i.
     scan_reaches (ex_env [ex_arg ''count'' (Some ''-c'') 1 True])
       [ex_arg ''count'' (Some ''-c'') 1 True] [''prog'', ''-c'']
       (arguments_initialize 0 [ex_arg ''count'' (Some ''-c'') 1 True],
        if (1::int) < 1 then 1 else 1) (args, 1) \<and>
     (1::int) < int (length [''prog'', ''-c'']) \<and>
     select_branch [ex_arg ''count'' (Some ''-c'') 1 True] ([''prog'', ''-c''] ! nat 1) =
       B_arg i \<and>
     i < length [\<lparr>present = True, initialized = False, value_strings = None,
                  value_strings_length = 1, val = 0::nat\<rparr>] \<and>
     present ([\<lparr>present = True, initialized = False, value_strings = None,
                value_strings_length = 1, val = 0::nat\<rparr>] ! i) \<and>
     value_strings_length ([\<lparr>present = True, initialized = False, value_strings = None,
                value_strings_length = 1, val = 0::nat\<rparr>] ! i) =
       value_count ([ex_arg ''count'' (Some ''-c'') 1 True] ! i) \<and>
     value_strings ([\<lparr>present = True, initialized = False, value_strings = None,
                value_strings_length = 1, val = 0::nat\<rparr>] ! i) = value_strings (args ! i) \<and>
     (\<not> present (args ! i) \<longrightarrow>
        value_strings ([\<lparr>present = True, initialized = False, value_strings = None,
                value_strings_length = 1, val = 0::nat\<rparr>] ! i) = None) \<and>
     (\<forall>m. m \<noteq> i \<longrightarrow>
        [\<lparr>present = True, initialized = False, value_strings = None,
                value_strings_length = 1, val = 0::nat\<rparr>] ! m = args ! m)"
  by (rule read_error_record[OF ex_read_error])

text \<open>
  \<open>value_strings\<close> is not always null after the error: when the flag occurs twice
  and only its first occurrence has a value, the pointer still leads to that value.
\<close>

theorem read_error_record_counterexample:
  "arguments_read (ex_env [ex_arg ''count'' (Some ''-c'') 1 True])
    [ex_arg ''count'' (Some ''-c'') 1 True] [''prog'', ''-c'', ''5'', ''-c'']
     (arguments_initialize 0 [ex_arg ''count'' (Some ''-c'') 1 True]) 1 =
   Some (AC_ERROR, [\<lparr>present = True, initialized = False, value_strings = Some 2,
            value_strings_length = 1, val = 0\<rparr>], 3)"
proof -
  let ?S = "[ex_arg ''count'' (Some ''-c'') 1 True]"
  let ?argv = "[''prog'', ''-c'', ''5'', ''-c'']"
  let ?a = "\<lparr>present = True, initialized = False, value_strings = Some 2,
            value_strings_length = 1 :: 32 word, val = 0::nat\<rparr>"
  have 1: "read_step (ex_env ?S) ?S ?argv (arguments_initialize 0 ?S, 1) = Continue ([?a], 3)"
    by (simp add: ex_initialize ex_step_short numeral_2_eq_2)
  have 2: "read_step (ex_env ?S) ?S ?argv ([?a], 3) = Return (AC_ERROR, [?a], 3)"
    by (simp add: read_step_def ex_select_short ex_value_count u32_def s32_def
        numeral_3_eq_3)
  have "read_loop (ex_env ?S) ?S ?argv ([?a], 3) = Some (AC_ERROR, [?a], 3)"
    by (rule read_loop_stop[OF _ 2]) simp
  then have "read_loop (ex_env ?S)
              ?S ?argv (arguments_initialize 0 ?S, 1) = Some (AC_ERROR, [?a], 3)"
    using read_loop_continue[OF _ 1] by simp
  then show ?thesis by (simp add: arguments_read_def)
qed

subsection \<open>The help flags\<close>

text \<open>
  When the scan of \<open>arguments_read\<close> is at index \<open>j\<close> with the struct
  \<open>args\<close>, the token there is \<^verbatim>\<open>--help\<close> or \<^verbatim>\<open>-h\<close>, and the printer of
  the help returns, \<open>arguments_read\<close> returns \<open>AC_HELP\<close> with that struct
  unchanged and \<^verbatim>\<open>*nextarg\<close> equal to \<open>j\<close>: no later token is matched or
  taken as a value. \<open>main\<close> then returns 0 at once: no statement block has run,
  nothing is initialised and no exit handler is registered.
\<close>

theorem help_stops_scan:
  assumes reach: "scan_reaches env schema argv (args0, if n0 < 1 then 1 else n0) (args, j)"
    and j: "j < int (length argv)"
    and tok: "argv ! nat j = ''--help'' \<or> argv ! nat j = ''-h''"
    and prints: "arguments_print_help env = Some out"
  shows "arguments_read env schema argv args0 n0 = Some (AC_HELP, args, j) \<and>
         (\<forall>prog. descriptors prog = schema \<and>
                 args0 = arguments_initialize (zero_value prog) schema \<and> n0 = 1 \<longrightarrow>
            main env prog argv =
              Some (Ret_help, \<lparr>arguments = args, handlers = [], trace = []\<rparr>) \<and>
            run_process env prog argv =
              Some (0, \<lparr>arguments = args, handlers = [], trace = []\<rparr>))"
proof -
  have "select_branch schema (argv ! nat j) = B_help"
    using tok by (auto simp: select_branch_def)
  then have "read_step env schema argv (args, j) = Return (AC_HELP, args, j)"
    using prints by (simp add: read_step_def)
  then have "read_loop env schema argv (args, j) = Some (AC_HELP, args, j)"
    using j by (intro read_loop_stop) auto
  with scan_reaches_loop[OF reach]
  have r: "arguments_read env schema argv args0 n0 = Some (AC_HELP, args, j)"
    by (simp add: arguments_read_def)
  have "main env prog argv = Some (Ret_help, \<lparr>arguments = args, handlers = [], trace = []\<rparr>) \<and>
        run_process env prog argv = Some (0, \<lparr>arguments = args, handlers = [], trace = []\<rparr>)"
    if "descriptors prog = schema"
      "args0 = arguments_initialize (zero_value prog) schema" "n0 = 1" for prog
  proof -
    have m: "main env prog argv = Some (Ret_help, \<lparr>arguments = args, handlers = [], trace = []\<rparr>)"
      using r that by (simp add: main_def)
    then show ?thesis by (simp add: run_process_def exit_process_def)
  qed
  with r show ?thesis by blast
qed

text \<open>
  The theorem at a command line with the help flag after one matched descriptor and
  before another flag, where \<^verbatim>\<open>ARGUMENTS_HELP\<close> is \<^verbatim>\<open>usage\<close> and
  \<^verbatim>\<open>COLUMNS\<close> is not set.
\<close>

theorem help_stops_scan_witness:
  "arguments_read (ex_env_at None (Some ''usage'') [ex_arg ''count'' (Some ''-c'') 1 True])
    [ex_arg ''count'' (Some ''-c'') 1 True]
     [''prog'', ''-c'', ''5'', ''--help'', ''-c'']
     (arguments_initialize 0 [ex_arg ''count'' (Some ''-c'') 1 True]) 1 =
   Some (AC_HELP, [\<lparr>present = True, initialized = False, value_strings = Some 2,
            value_strings_length = 1, val = 0\<rparr>], 3) \<and>
   main (ex_env_at None (Some ''usage'') [ex_arg ''count'' (Some ''-c'') 1 True])
     (ex_program [ex_arg ''count'' (Some ''-c'') 1 True])
     [''prog'', ''-c'', ''5'', ''--help'', ''-c''] =
   Some (Ret_help,
     \<lparr>arguments = [\<lparr>present = True, initialized = False, value_strings = Some 2,
            value_strings_length = 1, val = 0\<rparr>], handlers = [], trace = []\<rparr>) \<and>
   run_process (ex_env_at None (Some ''usage'') [ex_arg ''count'' (Some ''-c'') 1 True])
     (ex_program [ex_arg ''count'' (Some ''-c'') 1 True])
     [''prog'', ''-c'', ''5'', ''--help'', ''-c''] =
   Some (0,
     \<lparr>arguments = [\<lparr>present = True, initialized = False, value_strings = Some 2,
            value_strings_length = 1, val = 0\<rparr>], handlers = [], trace = []\<rparr>)"
proof -
  let ?S = "[ex_arg ''count'' (Some ''-c'') 1 True]"
  let ?E = "ex_env_at None (Some ''usage'') ?S"
  let ?argv = "[''prog'', ''-c'', ''5'', ''--help'', ''-c'']"
  let ?a = "\<lparr>present = True, initialized = False, value_strings = Some 2,
            value_strings_length = 1 :: 32 word, val = 0::nat\<rparr>"
  have 1: "read_step ?E ?S ?argv (arguments_initialize 0 ?S, 1) = Continue ([?a], 3)"
    by (simp add: ex_initialize ex_step_short numeral_2_eq_2)
  have reach: "scan_reaches ?E ?S ?argv
      (arguments_initialize 0 ?S, if (1::int) < 1 then 1 else 1) ([?a], 3)"
    using scan_reaches.step[OF scan_reaches.here _ 1] by simp
  have j: "(3::int) < int (length ?argv)" by simp
  have tok: "?argv ! nat 3 = ''--help'' \<or> ?argv ! nat 3 = ''-h''"
    by (simp add: numeral_3_eq_3)
  have p: "descriptors (ex_program ?S) = ?S \<and>
           arguments_initialize 0 ?S = arguments_initialize (zero_value (ex_program ?S)) ?S \<and>
           (1::int) = 1"
    by (simp add: ex_program_def)
  note t = help_stops_scan[OF reach j tok ex_print_usage]
  from t have a: "arguments_read ?E ?S ?argv (arguments_initialize 0 ?S) 1 =
      Some (AC_HELP, [?a], 3)" by (rule conjunct1)
  from t[THEN conjunct2, rule_format, OF p] a show ?thesis by blast
qed

lemma read_help_hangs:
  assumes reach: "scan_reaches env schema argv (args0, if n0 < 1 then 1 else n0) (args, j)"
    and j: "j < int (length argv)"
    and tok: "argv ! nat j = ''--help'' \<or> argv ! nat j = ''-h''"
    and hangs: "arguments_print_help env = None"
  shows "arguments_read env schema argv args0 n0 = None"
proof -
  have "select_branch schema (argv ! nat j) = B_help"
    using tok by (auto simp: select_branch_def)
  then have "read_step env schema argv (args, j) = Hang"
    using hangs by (simp add: read_step_def)
  then have "read_loop env schema argv (args, j) = None"
    using j by (intro read_loop_hang) auto
  with scan_reaches_loop[OF reach] show ?thesis
    by (simp add: arguments_read_def)
qed

text \<open>
  C6. The branch of the help flags calls \<^verbatim>\<open>arguments_print_help\<close> before it
  returns \<open>AC_HELP\<close>, and the printer does not always return. With
  \<^verbatim>\<open>COLUMNS\<close> set to 0, \<^verbatim>\<open>arguments_terminal_width\<close> gives
  \<^verbatim>\<open>(unsigned int)-1\<close>; for the text of \<^verbatim>\<open>ARGUMENTS_HELP\<close>, printed without
  header, \<^verbatim>\<open>arguments_print_help_string\<close> adds 1 to it and passes the maximal
  length 0 to \<open>arguments_get_line\<close>, which returns the offset 0, so that the loop
  \<^verbatim>\<open>while (*c)\<close> stays at the first character of the text. For the command line
  \<^verbatim>\<open>prog --help\<close> the scan is at the help flag, yet \<open>arguments_read\<close> does
  not return \<open>AC_HELP\<close> and the process does not exit with 0: neither returns.
\<close>

theorem help_printer_hangs:
  "arguments_terminal_width (Some 0) = 4294967295 \<and>
   print_max_length False 0 4294967295 = 0 \<and>
   arguments_get_line mbrlen_single () ''usage'' 0 = (0, 0) \<and>
   arguments_print_help
     (ex_env_at (Some 0) (Some ''usage'') [ex_arg ''count'' (Some ''-c'') 1 True]) = None \<and>
   select_branch [ex_arg ''count'' (Some ''-c'') 1 True] ([''prog'', ''--help''] ! 1) = B_help \<and>
   arguments_read
     (ex_env_at (Some 0) (Some ''usage'') [ex_arg ''count'' (Some ''-c'') 1 True])
     [ex_arg ''count'' (Some ''-c'') 1 True] [''prog'', ''--help'']
     (arguments_initialize 0 [ex_arg ''count'' (Some ''-c'') 1 True]) 1 = None \<and>
   run_process
     (ex_env_at (Some 0) (Some ''usage'') [ex_arg ''count'' (Some ''-c'') 1 True])
     (ex_program [ex_arg ''count'' (Some ''-c'') 1 True]) [''prog'', ''--help''] = None"
proof -
  let ?S = "[ex_arg ''count'' (Some ''-c'') 1 True]"
  let ?E = "ex_env_at (Some 0) (Some ''usage'') ?S"
  let ?argv = "[''prog'', ''--help'']"
  have g: "arguments_get_line mbrlen_single () ''usage'' 0 = (0, 0)"
  proof -
    have "skip_spaces ''usage'' (length ''usage'' mod 2 ^ 32) 0 = 0"
      by (rule skip_spaces_stay) simp
    then show ?thesis by (simp add: get_line_zero)
  qed
  have p: "arguments_print_help ?E = None"
    by (rule print_help_hangs[of _ "''usage''"]) (simp_all add: ex_env_at_def)
  have s: "select_branch ?S (?argv ! 1) = B_help" by (simp add: select_branch_def)
  have reach: "scan_reaches ?E ?S ?argv
      (arguments_initialize 0 ?S, if (1::int) < 1 then 1 else 1) (arguments_initialize 0 ?S, 1)"
    by (simp add: scan_reaches.here)
  have r: "arguments_read ?E ?S ?argv (arguments_initialize 0 ?S) 1 = None"
    by (rule read_help_hangs[OF reach _ _ p]) simp_all
  have m: "main ?E (ex_program ?S) ?argv = None"
    by (simp add: main_def ex_program_def r)
  have "run_process ?E (ex_program ?S) ?argv = None"
    by (simp add: run_process_def m)
  with terminal_width_zero print_max_length_zero g p s r show ?thesis by blast
qed

section \<open>The conversion of the values\<close>

lemma set_reaches_Suc:
  "set_reaches schema argv args (Suc n) \<longleftrightarrow>
     set_reaches schema argv args n \<and> block_valid schema argv args n"
  by (auto simp: set_reaches_def less_Suc_eq)

lemma map_upt_update:
  "n < m \<Longrightarrow> (map f [0..<m])[n := x] = map (f(n := x)) [0..<m]"
  by (rule nth_equalityI) (auto simp: nth_list_update)

lemma set_fold:
  assumes "n \<le> length (arguments p)"
  shows "fold (set_arg schema argv) [0..<n] (True, p) =
     (set_reaches schema argv (arguments p) n,
      p\<lparr>arguments := map (set_result schema argv (arguments p) n) [0..<length (arguments p)],
        trace := trace p @ map (\<lambda>j. block_event (arguments p ! j) j)
                             (filter (set_reaches schema argv (arguments p)) [0..<n])\<rparr>)"
  using assms
proof (induction n)
  case 0
  have "map (set_result schema argv (arguments p) 0) [0..<length (arguments p)] = arguments p"
    by (rule nth_equalityI) (auto simp: set_result_def)
  then show ?case by (simp add: set_reaches_def)
next
  case (Suc n)
  let ?args = "arguments p"
  let ?m = "length ?args"
  have n: "n < ?m" using Suc.prems by simp
  have at_n: "set_result schema argv ?args n n = ?args ! n" by (simp add: set_result_def)
  show ?case
  proof (cases "set_reaches schema argv ?args n")
    case True
    have upd: "(map (set_result schema argv ?args n) [0..<?m])
                 [n := (?args ! n)\<lparr>val := fst (run_block (schema ! n) argv (?args ! n)),
                      initialized := (if snd (run_block (schema ! n) argv (?args ! n)) then True
                                      else initialized (?args ! n))\<rparr>] =
               map (set_result schema argv ?args (Suc n)) [0..<?m]"
      using n True
      by (intro nth_equalityI) (auto simp: nth_list_update set_result_def block_valid_def)
    show ?thesis
      using Suc.IH n True upd
      by (simp add: set_arg_def at_n set_reaches_Suc block_valid_def split_beta Let_def)
  next
    case False
    have "map (set_result schema argv ?args n) [0..<?m] =
          map (set_result schema argv ?args (Suc n)) [0..<?m]"
      using False by (intro nth_equalityI) (auto simp: set_result_def less_Suc_eq)
    then show ?thesis
      using Suc.IH n False by (simp add: set_arg_def set_reaches_Suc)
  qed
qed

lemma arguments_set_eq:
  assumes "length (arguments p) = length schema"
  shows "arguments_set schema argv p =
     (if set_reaches schema argv (arguments p) (length schema) then AC_OK else AC_ERROR,
      p\<lparr>arguments := map (set_result schema argv (arguments p) (length schema))
                        [0..<length schema],
        trace := trace p @ map (\<lambda>j. block_event (arguments p ! j) j)
                             (filter (set_reaches schema argv (arguments p)) [0..<length schema]),
        handlers := handlers p @ [H_arguments_release]\<rparr>)"
  using set_fold[of "length schema" p schema argv] assms
  by (simp add: arguments_set_def)

lemma first_invalid:
  assumes "set_reaches schema argv args i" "\<not> block_valid schema argv args i"
  shows "set_reaches schema argv args j \<longleftrightarrow> j \<le> i"
proof
  assume "set_reaches schema argv args j"
  with assms(2) show "j \<le> i" by (auto simp: set_reaches_def intro: leI)
next
  assume "j \<le> i"
  with assms(1) show "set_reaches schema argv args j" by (auto simp: set_reaches_def)
qed

lemma filter_le_upt: "i < n \<Longrightarrow> filter (\<lambda>j. j \<le> i) [0..<n] = [0..<Suc i]"
proof (induction n)
  case 0
  then show ?case by simp
next
  case (Suc n)
  show ?case
  proof (cases "i = n")
    case True
    have "filter (\<lambda>j. j \<le> n) [0..<n] = [0..<n]" by (rule filter_True) simp
    with True show ?thesis by simp
  next
    case False
    with Suc show ?thesis by simp
  qed
qed

lemma block_event_index:
  "block_event a j = ReadEv i \<or> block_event a j = DefaultEv i \<Longrightarrow> i = j"
  by (auto simp: block_event_def split: if_splits)

lemma block_events_index:
  assumes "ReadEv i \<in> set (map (\<lambda>j. block_event (f j) j) ks) \<or>
           DefaultEv i \<in> set (map (\<lambda>j. block_event (f j) j) ks)"
  shows "i \<in> set ks"
proof -
  from assms obtain k where k: "k \<in> set ks"
    and e: "block_event (f k) k = ReadEv i \<or> block_event (f k) k = DefaultEv i"
    by (auto simp: image_iff)
  from block_event_index[OF e] k show ?thesis by simp
qed

lemma ex_three_nth:
  "ex_three ! 0 = ex_arg ''count'' (Some ''-c'') 1 False"
  "ex_three ! Suc 0 = ex_arg ''name'' (Some ''-n'') 1 False"
  "ex_three ! Suc (Suc 0) = ex_arg ''size'' None 1 False"
  "length ex_three = 3"
  by (simp_all add: ex_three_def)

lemma ex_struct_valid:
  "block_valid ex_three [''prog'', ''-n'', ''bad''] (arguments ex_struct) 0"
  "\<not> block_valid ex_three [''prog'', ''-n'', ''bad''] (arguments ex_struct) (Suc 0)"
  by (simp_all add: block_valid_def run_block_def ex_three_nth ex_struct_def ex_absent_def
      ex_arg_def captured_def)

lemma ex_struct_set:
  "arguments_set ex_three [''prog'', ''-n'', ''bad''] ex_struct =
     (AC_ERROR,
      \<lparr>arguments =
         [\<lparr>present = False, initialized = True, value_strings = None,
           value_strings_length = 0, val = 7\<rparr>,
          \<lparr>present = True, initialized = False, value_strings = Some 2,
           value_strings_length = 1, val = 3\<rparr>,
          ex_absent],
       handlers = [H_teardown, H_arguments_release],
       trace = [DefaultEv 0, ReadEv 1]\<rparr>)"
  by (simp add: arguments_set_def ex_three_nth numeral_3_eq_3 set_arg_def run_block_def
      block_event_def ex_struct_def ex_absent_def ex_arg_def captured_def)

lemma ex_struct_valid_ok:
  "block_valid ex_three [''prog'', ''-n'', ''ok''] (arguments ex_struct) 0"
  "block_valid ex_three [''prog'', ''-n'', ''ok''] (arguments ex_struct) (Suc 0)"
  by (simp_all add: block_valid_def run_block_def ex_three_nth ex_struct_def ex_absent_def
      ex_arg_def captured_def)

lemma ex_struct_set_ok:
  "arguments_set ex_three [''prog'', ''-n'', ''ok''] ex_struct =
     (AC_OK,
      \<lparr>arguments =
         [\<lparr>present = False, initialized = True, value_strings = None,
           value_strings_length = 0, val = 7\<rparr>,
          \<lparr>present = True, initialized = True, value_strings = Some 2,
           value_strings_length = 1, val = 2\<rparr>,
          \<lparr>present = False, initialized = True, value_strings = None,
           value_strings_length = 0, val = 7\<rparr>],
       handlers = [H_teardown, H_arguments_release],
       trace = [DefaultEv 0, ReadEv 1, DefaultEv 2]\<rparr>)"
  by (simp add: arguments_set_def ex_three_nth numeral_3_eq_3 set_arg_def run_block_def
      block_event_def ex_struct_def ex_absent_def ex_arg_def captured_def)

lemma ex_three_select: "select_branch ex_three ''-n'' = B_arg 1"
  by (simp add: select_branch_def matches_def ex_three_def ex_arg_def arguments_cmp_def
      deref_def)

lemma ex_three_read:
  "arguments_read (ex_env ex_three)
    ex_three [''prog'', ''-n'', ''bad''] (arguments_initialize 0 ex_three) 1 =
     Some (AC_OK, arguments ex_struct, 3)"
proof -
  let ?argv = "[''prog'', ''-n'', ''bad'']"
  have init: "arguments_initialize 0 ex_three = [ex_absent, ex_absent, ex_absent]"
    by (simp add: arguments_initialize_def ex_three_def ex_absent_def)
  have 1: "read_step (ex_env ex_three) ex_three ?argv (arguments_initialize 0 ex_three, 1) =
           Continue (arguments ex_struct, 3)"
    by (simp add: init read_step_def ex_three_select ex_three_nth ex_value_count u32_def
        s32_def ex_struct_def ex_absent_def numeral_2_eq_2)
  have "read_loop (ex_env ex_three)
         ex_three ?argv (arguments ex_struct, 3) = Some (AC_OK, arguments ex_struct, 3)"
    using read_loop_end[of "(arguments ex_struct, 3)" ?argv "ex_env ex_three" ex_three] by simp
  then show ?thesis
    using read_loop_continue[OF _ 1] by (simp add: arguments_read_def)
qed

text \<open>
  C5. Let \<open>arguments_set\<close> run on a struct in which descriptor \<open>i\<close> is present,
  the statements of every descriptor before \<open>i\<close> leave \<^verbatim>\<open>is_valid\<close> set, and the
  reader of \<open>i\<close> clears it. Then \<open>arguments_set\<close> returns \<open>AC_ERROR\<close>; the
  statement blocks it has run are those of the descriptors up to \<open>i\<close>, in order,
  the reader of \<open>i\<close> last; for a descriptor after \<open>i\<close> neither the reader nor the
  default provider runs and its record is unchanged, so it is not marked initialised;
  and every descriptor before \<open>i\<close> is initialised.
\<close>

theorem set_stops_at_invalid:
  assumes len: "length (arguments p) = length schema"
    and i: "i < length schema"
    and pres: "present (arguments p ! i)"
    and reach: "set_reaches schema argv (arguments p) i"
    and inv: "\<not> block_valid schema argv (arguments p) i"
  shows "fst (arguments_set schema argv p) = AC_ERROR \<and>
         new_events p (snd (arguments_set schema argv p)) =
           map (\<lambda>j. block_event (arguments p ! j) j) [0..<Suc i] \<and>
         ReadEv i \<in> set (new_events p (snd (arguments_set schema argv p))) \<and>
         (\<forall>j. i < j \<and> j < length schema \<longrightarrow>
            ReadEv j \<notin> set (new_events p (snd (arguments_set schema argv p))) \<and>
            DefaultEv j \<notin> set (new_events p (snd (arguments_set schema argv p))) \<and>
            arguments (snd (arguments_set schema argv p)) ! j = arguments p ! j) \<and>
         (\<forall>j<i. initialized (arguments (snd (arguments_set schema argv p)) ! j))"
proof -
  let ?r = "arguments_set schema argv p"
  let ?ev = "\<lambda>j. block_event (arguments p ! j) j"
  note fi = first_invalid[OF reach inv]
  have nr: "\<not> set_reaches schema argv (arguments p) (length schema)"
    using fi[of "length schema"] i by simp
  have st: "fst ?r = AC_ERROR" using nr by (simp add: arguments_set_eq[OF len])
  have "filter (set_reaches schema argv (arguments p)) [0..<length schema] = [0..<Suc i]"
    using filter_le_upt[OF i] by (simp add: fi[abs_def])
  then have ev: "new_events p (snd ?r) = map ?ev [0..<Suc i]"
    by (simp add: arguments_set_eq[OF len] new_events_def)
  have rd: "ReadEv i \<in> set (new_events p (snd ?r))"
  proof -
    have "?ev i = ReadEv i" using pres by (simp add: block_event_def)
    moreover have "i \<in> set [0..<Suc i]" by simp
    ultimately show ?thesis unfolding ev by (metis (no_types, lifting) image_eqI set_map)
  qed
  have later: "ReadEv j \<notin> set (new_events p (snd ?r)) \<and>
               DefaultEv j \<notin> set (new_events p (snd ?r)) \<and>
               arguments (snd ?r) ! j = arguments p ! j"
    if j: "i < j \<and> j < length schema" for j
  proof -
    have "j \<notin> set [0..<Suc i]" using j by simp
    then have "ReadEv j \<notin> set (map ?ev [0..<Suc i]) \<and> DefaultEv j \<notin> set (map ?ev [0..<Suc i])"
      using block_events_index[of j "\<lambda>k. arguments p ! k" "[0..<Suc i]"] by blast
    moreover have "arguments (snd ?r) ! j = arguments p ! j"
      using j fi[of j] by (simp add: arguments_set_eq[OF len] set_result_def)
    ultimately show ?thesis unfolding ev by blast
  qed
  have earlier: "initialized (arguments (snd ?r) ! j)" if j: "j < i" for j
  proof -
    have "block_valid schema argv (arguments p) j" using reach j by (simp add: set_reaches_def)
    moreover have "set_reaches schema argv (arguments p) j" using fi[of j] j by simp
    ultimately show ?thesis
      using j i by (simp add: arguments_set_eq[OF len] set_result_def)
  qed
  from st ev rd later earlier show ?thesis by blast
qed

text \<open>
  The theorem at the table of three arguments, where the reader of the second one
  rejects its value.
\<close>

theorem set_stops_at_invalid_witness:
  "fst (arguments_set ex_three [''prog'', ''-n'', ''bad''] ex_struct) = AC_ERROR \<and>
   new_events ex_struct (snd (arguments_set ex_three [''prog'', ''-n'', ''bad''] ex_struct)) =
     [DefaultEv 0, ReadEv 1] \<and>
   arguments (snd (arguments_set ex_three [''prog'', ''-n'', ''bad''] ex_struct)) ! 2 =
     arguments ex_struct ! 2 \<and>
   initialized (arguments (snd (arguments_set ex_three [''prog'', ''-n'', ''bad''] ex_struct)) ! 0)"
proof -
  let ?argv = "[''prog'', ''-n'', ''bad'']"
  have len: "length (arguments ex_struct) = length ex_three"
    by (simp add: ex_struct_def ex_three_def)
  have i: "1 < length ex_three" by (simp add: ex_three_def)
  have pres: "present (arguments ex_struct ! 1)" by (simp add: ex_struct_def)
  have reach: "set_reaches ex_three ?argv (arguments ex_struct) 1"
    using ex_struct_valid(1) by (simp add: set_reaches_def)
  have inv: "\<not> block_valid ex_three ?argv (arguments ex_struct) 1"
    using ex_struct_valid(2) by simp
  note t = set_stops_at_invalid[OF len i pres reach inv]
  from t have a: "fst (arguments_set ex_three ?argv ex_struct) = AC_ERROR" by blast
  from t have "new_events ex_struct (snd (arguments_set ex_three ?argv ex_struct)) =
      map (\<lambda>j. block_event (arguments ex_struct ! j) j) [0..<Suc 1]" by blast
  then have b: "new_events ex_struct (snd (arguments_set ex_three ?argv ex_struct)) =
      [DefaultEv 0, ReadEv 1]"
    by (simp add: block_event_def ex_struct_def ex_absent_def)
  from t have "\<forall>j. 1 < j \<and> j < length ex_three \<longrightarrow>
      arguments (snd (arguments_set ex_three ?argv ex_struct)) ! j = arguments ex_struct ! j"
    by blast
  then have c: "arguments (snd (arguments_set ex_three ?argv ex_struct)) ! 2 =
      arguments ex_struct ! 2"
    by (simp add: ex_three_nth)
  from t have "\<forall>j<1. initialized (arguments (snd (arguments_set ex_three ?argv ex_struct)) ! j)"
    by blast
  then have d: "initialized (arguments (snd (arguments_set ex_three ?argv ex_struct)) ! 0)"
    by simp
  from a b c d show ?thesis by blast
qed

text \<open>
  C7. Let descriptor \<open>i\<close> be absent in the struct, with a default provider that
  leaves \<^verbatim>\<open>is_valid\<close> set. Then \<open>arguments_set\<close> never runs the reader of
  \<open>i\<close>. When it comes to descriptor \<open>i\<close>, as it does unless the statements of an
  earlier descriptor have cleared \<^verbatim>\<open>is_valid\<close>, it runs the default provider of
  \<open>i\<close>, stores its value and marks \<open>i\<close> initialised; so it does whenever it
  returns \<open>AC_OK\<close>. \<open>arguments_set\<close> does not look at \<open>is_required\<close>: this
  holds of a descriptor that is not required, and of one that is.
\<close>

theorem default_initializes:
  assumes len: "length (arguments p) = length schema"
    and i: "i < length schema"
    and absent: "\<not> present (arguments p ! i)"
    and dflt: "snd (set_default (schema ! i) (val (arguments p ! i)))"
  shows "ReadEv i \<notin> set (new_events p (snd (arguments_set schema argv p))) \<and>
         (set_reaches schema argv (arguments p) i \<longrightarrow>
            initialized (arguments (snd (arguments_set schema argv p)) ! i) \<and>
            val (arguments (snd (arguments_set schema argv p)) ! i) =
              fst (set_default (schema ! i) (val (arguments p ! i))) \<and>
            DefaultEv i \<in> set (new_events p (snd (arguments_set schema argv p)))) \<and>
         (fst (arguments_set schema argv p) = AC_OK \<longrightarrow>
            initialized (arguments (snd (arguments_set schema argv p)) ! i) \<and>
            val (arguments (snd (arguments_set schema argv p)) ! i) =
              fst (set_default (schema ! i) (val (arguments p ! i))) \<and>
            DefaultEv i \<in> set (new_events p (snd (arguments_set schema argv p))))"
proof -
  let ?r = "arguments_set schema argv p"
  let ?ev = "\<lambda>j. block_event (arguments p ! j) j"
  let ?F = "filter (set_reaches schema argv (arguments p)) [0..<length schema]"
  have ev: "new_events p (snd ?r) = map ?ev ?F"
    by (simp add: arguments_set_eq[OF len] new_events_def)
  have nr: "ReadEv i \<notin> set (new_events p (snd ?r))"
  proof
    assume "ReadEv i \<in> set (new_events p (snd ?r))"
    then obtain k where "?ev k = ReadEv i" unfolding ev by (auto simp: image_iff)
    moreover from block_event_index[of "arguments p ! k" k i] this have "k = i" by simp
    ultimately show False using absent by (simp add: block_event_def)
  qed
  have rb: "run_block (schema ! i) argv (arguments p ! i) =
            set_default (schema ! i) (val (arguments p ! i))"
    using absent by (simp add: run_block_def)
  have reached: "initialized (arguments (snd ?r) ! i) \<and>
        val (arguments (snd ?r) ! i) = fst (set_default (schema ! i) (val (arguments p ! i))) \<and>
        DefaultEv i \<in> set (new_events p (snd ?r))"
    if reach: "set_reaches schema argv (arguments p) i"
  proof -
    have "i \<in> set ?F" using reach i by simp
    moreover have "?ev i = DefaultEv i" using absent by (simp add: block_event_def)
    ultimately have "DefaultEv i \<in> set (new_events p (snd ?r))"
      unfolding ev by (metis (no_types, lifting) image_eqI set_map)
    moreover have "initialized (arguments (snd ?r) ! i)"
      "val (arguments (snd ?r) ! i) = fst (set_default (schema ! i) (val (arguments p ! i)))"
      using reach i dflt
      by (simp_all add: arguments_set_eq[OF len] set_result_def block_valid_def rb)
    ultimately show ?thesis by blast
  qed
  have "set_reaches schema argv (arguments p) i" if ok: "fst ?r = AC_OK"
  proof -
    have "set_reaches schema argv (arguments p) (length schema)"
      using ok by (simp add: arguments_set_eq[OF len] split: if_splits)
    then show ?thesis using i by (simp add: set_reaches_def)
  qed
  with nr reached show ?thesis by blast
qed

text \<open>
  The theorem at the third of the three arguments, for the command line
  \<^verbatim>\<open>prog -n ok\<close>: the first argument gets its default, the reader of the second
  accepts its value, and the third, absent, gets its default 7.
\<close>

theorem default_initializes_witness:
  "set_reaches ex_three [''prog'', ''-n'', ''ok''] (arguments ex_struct) 2 \<and>
   fst (arguments_set ex_three [''prog'', ''-n'', ''ok''] ex_struct) = AC_OK \<and>
   ReadEv 2 \<notin> set (new_events ex_struct
      (snd (arguments_set ex_three [''prog'', ''-n'', ''ok''] ex_struct))) \<and>
   initialized (arguments (snd (arguments_set ex_three [''prog'', ''-n'', ''ok''] ex_struct)) ! 2) \<and>
   val (arguments (snd (arguments_set ex_three [''prog'', ''-n'', ''ok''] ex_struct)) ! 2) = 7 \<and>
   DefaultEv 2 \<in> set (new_events ex_struct
      (snd (arguments_set ex_three [''prog'', ''-n'', ''ok''] ex_struct)))"
proof -
  let ?argv = "[''prog'', ''-n'', ''ok'']"
  have len: "length (arguments ex_struct) = length ex_three"
    by (simp add: ex_struct_def ex_three_def)
  have i: "2 < length ex_three" by (simp add: ex_three_def)
  have absent: "\<not> present (arguments ex_struct ! 2)"
    by (simp add: ex_struct_def ex_absent_def)
  have dflt: "snd (set_default (ex_three ! 2) (val (arguments ex_struct ! 2)))"
    by (simp add: ex_three_def ex_arg_def)
  have reach: "set_reaches ex_three ?argv (arguments ex_struct) 2"
    using ex_struct_valid_ok by (simp add: set_reaches_def numeral_2_eq_2 All_less_Suc)
  have ok: "fst (arguments_set ex_three ?argv ex_struct) = AC_OK"
    by (simp add: ex_struct_set_ok)
  have v: "fst (set_default (ex_three ! 2) (val (arguments ex_struct ! 2))) = 7"
    by (simp add: ex_three_def ex_arg_def)
  note t = default_initializes[OF len i absent dflt, of ?argv]
  from t have a: "ReadEv 2 \<notin> set (new_events ex_struct (snd (arguments_set ex_three ?argv ex_struct)))"
    by (rule conjunct1)
  from t[THEN conjunct2, THEN conjunct1, rule_format, OF reach] v
  have b: "initialized (arguments (snd (arguments_set ex_three ?argv ex_struct)) ! 2) \<and>
           val (arguments (snd (arguments_set ex_three ?argv ex_struct)) ! 2) = 7 \<and>
           DefaultEv 2 \<in> set (new_events ex_struct (snd (arguments_set ex_three ?argv ex_struct)))"
    by simp
  from t[THEN conjunct2, THEN conjunct2, rule_format, OF ok]
  have c: "initialized (arguments (snd (arguments_set ex_three ?argv ex_struct)) ! 2)"
    by (rule conjunct1)
  from reach ok a b c show ?thesis by blast
qed

section \<open>The whole process\<close>

lemma scan_reaches_initialized:
  "scan_reaches env schema argv st0 st \<Longrightarrow>
   map initialized (fst st) = map initialized (fst st0)"
proof (induction rule: scan_reaches.induct)
  case (here env schema argv st)
  then show ?case by simp
next
  case (step env schema argv st st1 st2)
  obtain args j where st1: "st1 = (args, j)" by (cases st1)
  from read_step_Continue[OF step.hyps(3)[unfolded st1]] obtain i where
    "fst st2 = args[i := (args ! i)\<lparr>present := True,
                 value_strings_length := value_count (schema ! i),
                 value_strings := Some (nat (j + 1))\<rparr>]" by auto
  then have "map initialized (fst st2) = map initialized args"
    by (simp add: map_update map_update_same)
  with step.IH st1 show ?case by simp
qed

lemma arguments_read_initialized:
  assumes "arguments_read env schema argv (arguments_initialize zero schema) n0 = Some (s, args, j)"
  shows "length args = length schema \<and> (\<forall>a \<in> set args. \<not> initialized a)"
proof -
  let ?st0 = "(arguments_initialize zero schema, if n0 < 1 then 1 else n0)"
  from read_loop_result[OF assms[unfolded arguments_read_def]] obtain args1 where
    reach: "scan_reaches env schema argv ?st0 (args1, j)"
    and fin: "if j < int (length argv) then read_step env schema argv (args1, j) = Return (s, args, j)
              else s = AC_OK \<and> args = args1" by blast
  have "map initialized args = map initialized args1"
    using fin read_step_Return[of env schema argv args1 j s args j] by (auto split: if_splits)
  also have "\<dots> = map initialized (arguments_initialize zero schema)"
    using scan_reaches_initialized[OF reach] by simp
  finally have m: "map initialized args = map initialized (arguments_initialize zero schema)" .
  from arg_cong[OF m, of length] have "length args = length schema"
    by (simp add: arguments_initialize_def)
  moreover from arg_cong[OF m, of set] have "\<forall>a \<in> set args. \<not> initialized a"
    by (auto simp: arguments_initialize_def)
  ultimately show ?thesis by simp
qed

lemma release_fold:
  assumes "n \<le> length (arguments p)"
  shows "fold (release_arg schema) [0..<n] p =
     p\<lparr>arguments := map (released schema (arguments p) n) [0..<length (arguments p)],
       trace := trace p @ map ReleaseEv (filter (\<lambda>j. initialized (arguments p ! j)) [0..<n])\<rparr>"
  using assms
proof (induction n)
  case 0
  have "map (released schema (arguments p) 0) [0..<length (arguments p)] = arguments p"
    by (rule nth_equalityI) (auto simp: released_def)
  then show ?case by simp
next
  case (Suc n)
  let ?args = "arguments p"
  let ?m = "length ?args"
  have n: "n < ?m" using Suc.prems by simp
  have at_n: "released schema ?args n n = ?args ! n" by (simp add: released_def)
  show ?case
  proof (cases "initialized (?args ! n)")
    case True
    have "(map (released schema ?args n) [0..<?m])
            [n := (?args ! n)\<lparr>val := release (schema ! n) (val (?args ! n))\<rparr>] =
          map (released schema ?args (Suc n)) [0..<?m]"
      using n True by (intro nth_equalityI) (auto simp: nth_list_update released_def)
    then show ?thesis
      using Suc.IH n True by (simp add: release_arg_def at_n Let_def)
  next
    case False
    have "map (released schema ?args n) [0..<?m] = map (released schema ?args (Suc n)) [0..<?m]"
      using False by (intro nth_equalityI) (auto simp: released_def less_Suc_eq)
    then show ?thesis
      using Suc.IH n False by (simp add: release_arg_def at_n Let_def)
  qed
qed

lemma main_cases:
  assumes m: "main env prog argv = Some (r, pm)"
  shows "(handlers pm = [] \<and> trace pm = [] \<and> (\<forall>a \<in> set (arguments pm). \<not> initialized a) \<and>
          length (arguments pm) = length (descriptors prog)) \<or>
         (\<exists>p1. length (arguments p1) = length (descriptors prog) \<and>
               handlers p1 = [H_teardown] \<and> trace p1 = [] \<and>
               pm = snd (arguments_set (descriptors prog) argv p1))"
proof -
  let ?S = "descriptors prog"
  from m obtain s args n where
    rd: "arguments_read env ?S argv (arguments_initialize (zero_value prog) ?S) 1 = Some (s, args, n)"
    by (auto simp: main_def split: option.splits)
  note inv = arguments_read_initialized[OF rd]
  let ?p = "\<lparr>arguments = args, handlers = [], trace = []\<rparr>"
  let ?p1 = "?p\<lparr>handlers := handlers ?p @ [H_teardown]\<rparr>"
  from m rd have "pm = ?p \<or> pm = snd (arguments_set ?S argv ?p1)"
    by (auto simp: main_def Let_def split: status.splits option.splits if_splits prod.splits)
  then show ?thesis
  proof
    assume "pm = ?p"
    with inv show ?thesis by simp
  next
    assume "pm = snd (arguments_set ?S argv ?p1)"
    moreover have "length (arguments ?p1) = length ?S \<and> handlers ?p1 = [H_teardown] \<and>
                   trace ?p1 = []"
      using inv by simp
    ultimately show ?thesis by blast
  qed
qed

lemma count_list_filter: "P x \<Longrightarrow> count_list (filter P xs) x = count_list xs x"
  by (induction xs) auto

lemma count_list_release: "count_list (map ReleaseEv ks) (ReleaseEv i) = count_list ks i"
  by (induction ks) auto

lemma count_list_distinct:
  "distinct xs \<Longrightarrow> count_list xs x = (if x \<in> set xs then 1 else 0)"
  by (induction xs) auto

lemma count_release:
  assumes t: "filter is_release t = map ReleaseEv (filter P [0..<n])" and i: "i < n"
  shows "count_list t (ReleaseEv i) = (if P i then 1 else 0)"
proof -
  let ?F = "filter P [0..<n]"
  have "count_list t (ReleaseEv i) = count_list (filter is_release t) (ReleaseEv i)"
    by (simp add: count_list_filter is_release_def)
  also have "\<dots> = count_list (map ReleaseEv ?F) (ReleaseEv i)" by (simp only: t)
  also have "\<dots> = count_list ?F i" by (rule count_list_release)
  also have "\<dots> = (if i \<in> set ?F then 1 else 0)"
    by (rule count_list_distinct) simp
  also have "\<dots> = (if P i then 1 else 0)" using i by simp
  finally show ?thesis .
qed

lemma filter_release_block:
  "filter is_release (map (\<lambda>j. block_event (f j) j) ks) = []"
  by (induction ks) (auto simp: is_release_def block_event_def)

lemma filter_release_map: "filter is_release (map ReleaseEv ks) = map ReleaseEv ks"
  by (induction ks) (auto simp: is_release_def)

lemma ex_three_main:
  "main (ex_env ex_three) (ex_program ex_three) [''prog'', ''-n'', ''bad''] =
     Some (Ret_invalid_set, snd (arguments_set ex_three [''prog'', ''-n'', ''bad''] ex_struct))"
proof -
  have fm: "find_missing ex_three (arguments ex_struct) = None"
    by (simp add: find_missing_def ex_three_def ex_arg_def numeral_3_eq_3)
  have st: "\<lparr>arguments = arguments ex_struct, handlers = [H_teardown], trace = []\<rparr> = ex_struct"
    by (simp add: ex_struct_def)
  show ?thesis
    by (simp add: main_def ex_program_def ex_three_read fm st ex_struct_set)
qed

lemma ex_three_run:
  "run_process (ex_env ex_three)
    (ex_program ex_three) [''prog'', ''-n'', ''bad''] = Some (110, ex_final)"
proof -
  have d: "descriptors (ex_program ex_three) = ex_three" by (simp add: ex_program_def)
  have x: "exit_process ex_three
             (snd (arguments_set ex_three [''prog'', ''-n'', ''bad''] ex_struct)) = ex_final"
    by (simp add: ex_struct_set exit_process_def run_handler_def arguments_release_def
        release_arg_def ex_three_nth numeral_3_eq_3 ex_final_def ex_arg_def ex_absent_def)
  show ?thesis by (simp add: run_process_def ex_three_main d x)
qed

lemma find_missing_Some:
  "find_missing schema args = Some i \<longleftrightarrow>
     i < length schema \<and> is_required (schema ! i) args \<and> \<not> present (args ! i) \<and>
     (\<forall>j<i. \<not> (is_required (schema ! j) args \<and> \<not> present (args ! j)))"
  by (auto simp: find_missing_def find_Some_iff)

lemma find_missing_None:
  "find_missing schema args = None \<longleftrightarrow>
     \<not> (\<exists>i<length schema. is_required (schema ! i) args \<and> \<not> present (args ! i))"
  by (auto simp: find_missing_def find_None_iff)

lemma main_missing:
  "main env prog argv = Some (Ret_missing i, p) \<longleftrightarrow>
     (\<exists>n. arguments_read env (descriptors prog) argv
             (arguments_initialize (zero_value prog) (descriptors prog)) 1 =
             Some (AC_OK, arguments p, n)) \<and>
     find_missing (descriptors prog) (arguments p) = Some i \<and>
     handlers p = [] \<and> trace p = []"
  by (cases p)
     (auto simp: main_def Let_def split: option.splits status.splits if_splits prod.splits)

lemma ex_program_sel:
  "descriptors (ex_program S) = S" "zero_value (ex_program S) = 0"
  "setup_fn (ex_program S) argv = 0"
  by (simp_all add: ex_program_def)

lemma ex_count_init: "arguments_initialize 0 [ex_arg n sh k req] = [ex_absent]"
  by (simp add: arguments_initialize_def ex_absent_def)

lemma ex_count_read_none:
  "arguments_read (ex_env [ex_arg ''count'' (Some ''-c'') 1 True])
    [ex_arg ''count'' (Some ''-c'') 1 True] [''prog''] [ex_absent] 1 =
     Some (AC_OK, [ex_absent], 1)"
  unfolding arguments_read_def by (subst read_loop.simps) simp

lemma ex_count_read_help:
  "arguments_read (ex_env [ex_arg ''count'' (Some ''-c'') 1 True])
    [ex_arg ''count'' (Some ''-c'') 1 True] [''prog'', ''--help''] [ex_absent] 1 =
     Some (AC_HELP, [ex_absent], 1)"
  unfolding arguments_read_def
  by (subst read_loop.simps) (simp add: read_step_def select_branch_def ex_print_help)

lemma ex_count_required:
  "is_required ([ex_arg ''count'' (Some ''-c'') 1 True] ! 0) [ex_absent] \<and>
   \<not> present ([ex_absent] ! 0)"
  by (simp add: ex_arg_def ex_absent_def)

subsection \<open>The release of the values\<close>

text \<open>
  C3. Whatever \<open>main\<close> returns, at the end of the process the release
  statements have run exactly once for every descriptor whose record is initialised
  and not at all for the others, in the order of the table: the release events of the
  trace are those of the initialised descriptors in increasing order. The records that
  are initialised at the end of the process are those that were when \<open>main\<close>
  returned. The process ends by the return from \<open>main\<close>, with \<open>arguments_set\<close>
  called at most once, as \<open>main\<close> does.
\<close>

theorem releases_once:
  assumes run: "run_process env prog argv = Some (code, pf)"
  shows "filter is_release (trace pf) =
           map ReleaseEv (filter (\<lambda>j. initialized (arguments pf ! j))
                            [0..<length (descriptors prog)]) \<and>
         (\<forall>i<length (descriptors prog).
            count_list (trace pf) (ReleaseEv i) =
              (if initialized (arguments pf ! i) then 1 else 0)) \<and>
         (\<forall>r pm. main env prog argv = Some (r, pm) \<longrightarrow>
            map initialized (arguments pf) = map initialized (arguments pm))"
proof -
  let ?S = "descriptors prog"
  let ?n = "length ?S"
  from run obtain r pm where m: "main env prog argv = Some (r, pm)"
    and pf: "pf = exit_process ?S pm"
    by (auto simp: run_process_def split: option.splits)
  have key: "filter is_release (trace pf) =
               map ReleaseEv (filter (\<lambda>j. initialized (arguments pf ! j)) [0..<?n]) \<and>
             map initialized (arguments pf) = map initialized (arguments pm)"
    using main_cases[OF m]
  proof
    assume a: "handlers pm = [] \<and> trace pm = [] \<and>
               (\<forall>a \<in> set (arguments pm). \<not> initialized a) \<and> length (arguments pm) = ?n"
    then have e: "pf = pm" by (simp add: pf exit_process_def)
    have "filter (\<lambda>j. initialized (arguments pm ! j)) [0..<?n] = []"
      using a by (auto simp: filter_empty_conv)
    with a e show ?thesis by simp
  next
    assume "\<exists>p1. length (arguments p1) = ?n \<and> handlers p1 = [H_teardown] \<and> trace p1 = [] \<and>
                 pm = snd (arguments_set ?S argv p1)"
    then obtain p1 where len: "length (arguments p1) = ?n"
      and h1: "handlers p1 = [H_teardown]" and t1: "trace p1 = []"
      and pm: "pm = snd (arguments_set ?S argv p1)" by blast
    let ?A = "map (set_result ?S argv (arguments p1) ?n) [0..<?n]"
    let ?E = "map (\<lambda>j. block_event (arguments p1 ! j) j)
                (filter (set_reaches ?S argv (arguments p1)) [0..<?n])"
    have apm: "arguments pm = ?A" and tpm: "trace pm = ?E"
      and hpm: "handlers pm = [H_teardown, H_arguments_release]"
      by (simp_all add: pm arguments_set_eq[OF len] h1 t1)
    have lpm: "?n \<le> length (arguments pm)" by (simp add: apm)
    let ?F = "filter (\<lambda>j. initialized (arguments pm ! j)) [0..<?n]"
    have rel: "arguments_release ?S pm =
        pm\<lparr>arguments := map (released ?S (arguments pm) ?n) [0..<length (arguments pm)],
           trace := trace pm @ map ReleaseEv ?F\<rparr>"
      unfolding arguments_release_def by (rule release_fold[OF lpm])
    have apf: "arguments pf = map (released ?S (arguments pm) ?n) [0..<?n]"
      and tpf: "trace pf = ?E @ map ReleaseEv ?F @ [TeardownEv]"
      by (simp_all add: pf exit_process_def hpm run_handler_def rel tpm apm)
    have ini: "initialized (arguments pf ! j) = initialized (arguments pm ! j)" if "j < ?n" for j
      using that by (simp add: apf released_def)
    have "?F = filter (\<lambda>j. initialized (arguments pf ! j)) [0..<?n]"
      by (rule filter_cong) (auto simp: ini)
    moreover have "filter is_release (trace pf) = map ReleaseEv ?F"
      by (simp add: tpf filter_release_block filter_release_map is_release_def)
    moreover have "map initialized (arguments pf) = map initialized (arguments pm)"
      by (rule nth_equalityI) (use ini in \<open>auto simp: apf apm\<close>)
    ultimately show ?thesis by simp
  qed
  have cnt: "count_list (trace pf) (ReleaseEv i) = (if initialized (arguments pf ! i) then 1 else 0)"
    if "i < ?n" for i
    using count_release[OF conjunct1[OF key] that] .
  have "map initialized (arguments pf) = map initialized (arguments pm')"
    if "main env prog argv = Some (r', pm')" for r' pm'
    using that m key by simp
  with key cnt show ?thesis by blast
qed

text \<open>
  The theorem at the command line \<^verbatim>\<open>prog -n bad\<close>: the first argument got its
  default and is released once, the second failed validation and the third was never
  reached, and neither is released.
\<close>

theorem releases_once_witness:
  "run_process (ex_env ex_three)
    (ex_program ex_three) [''prog'', ''-n'', ''bad''] = Some (110, ex_final) \<and>
   filter is_release (trace ex_final) = [ReleaseEv 0] \<and>
   count_list (trace ex_final) (ReleaseEv 0) = 1 \<and>
   count_list (trace ex_final) (ReleaseEv 1) = 0 \<and>
   count_list (trace ex_final) (ReleaseEv 2) = 0"
proof -
  note t = releases_once[OF ex_three_run]
  have n: "length (descriptors (ex_program ex_three)) = 3"
    by (simp add: ex_program_def ex_three_def)
  have i: "initialized (arguments ex_final ! 0)" "\<not> initialized (arguments ex_final ! 1)"
    "\<not> initialized (arguments ex_final ! 2)"
    by (simp_all add: ex_final_def ex_absent_def)
  from t have "filter is_release (trace ex_final) =
      map ReleaseEv (filter (\<lambda>j. initialized (arguments ex_final ! j)) [0..<3])"
    unfolding n by (rule conjunct1)
  moreover have "filter (\<lambda>j. initialized (arguments ex_final ! j)) [0..<3] = [0]"
    by (simp add: ex_final_def ex_absent_def numeral_3_eq_3)
  ultimately have a: "filter is_release (trace ex_final) = [ReleaseEv 0]" by simp
  from t have c: "\<forall>i<3. count_list (trace ex_final) (ReleaseEv i) =
      (if initialized (arguments ex_final ! i) then 1 else 0)"
    unfolding n by (rule conjunct1[OF conjunct2])
  from c i have "count_list (trace ex_final) (ReleaseEv 0) = 1"
    "count_list (trace ex_final) (ReleaseEv 1) = 0"
    "count_list (trace ex_final) (ReleaseEv 2) = 0"
    by simp_all
  with a ex_three_run show ?thesis by blast
qed

subsection \<open>The required arguments\<close>

text \<open>
  C4. \<open>main\<close> returns in the block of a missing required argument, with
  \<^verbatim>\<open>ARGUMENTS_PARAMETER_MISSING\<close>, if and only if \<open>arguments_read\<close> returned
  \<open>AC_OK\<close> and for some descriptor \<open>is_required\<close>, evaluated on the struct that
  \<open>arguments_read\<close> left, is true while the descriptor is absent. The check comes
  before \<^verbatim>\<open>setup\<close> and \<open>arguments_set\<close>: at this return no statement block
  has run, no record is initialised and no exit handler is registered.
\<close>

theorem missing_required:
  "((\<exists>i p. main env prog argv = Some (Ret_missing i, p)) \<longleftrightarrow>
      (\<exists>args n. arguments_read env (descriptors prog) argv
                   (arguments_initialize (zero_value prog) (descriptors prog)) 1 =
                   Some (AC_OK, args, n) \<and>
                 (\<exists>i<length (descriptors prog).
                    is_required (descriptors prog ! i) args \<and> \<not> present (args ! i)))) \<and>
   (\<forall>i p. main env prog argv = Some (Ret_missing i, p) \<longrightarrow>
      exit_code (Ret_missing i) = 120 \<and>
      run_process env prog argv = Some (120, p) \<and>
      is_required (descriptors prog ! i) (arguments p) \<and> \<not> present (arguments p ! i) \<and>
      (\<exists>n. arguments_read env (descriptors prog) argv
              (arguments_initialize (zero_value prog) (descriptors prog)) 1 =
              Some (AC_OK, arguments p, n)) \<and>
      handlers p = [] \<and> trace p = [] \<and> (\<forall>a \<in> set (arguments p). \<not> initialized a))"
proof (intro conjI allI impI iffI)
  assume "\<exists>i p. main env prog argv = Some (Ret_missing i, p)"
  then obtain i p where m: "main env prog argv = Some (Ret_missing i, p)" by blast
  from m[unfolded main_missing] show
    "\<exists>args n. arguments_read env (descriptors prog) argv
                   (arguments_initialize (zero_value prog) (descriptors prog)) 1 =
                   Some (AC_OK, args, n) \<and>
                 (\<exists>i<length (descriptors prog).
                    is_required (descriptors prog ! i) args \<and> \<not> present (args ! i))"
    by (auto simp: find_missing_Some)
next
  assume "\<exists>args n. arguments_read env (descriptors prog) argv
                   (arguments_initialize (zero_value prog) (descriptors prog)) 1 =
                   Some (AC_OK, args, n) \<and>
                 (\<exists>i<length (descriptors prog).
                    is_required (descriptors prog ! i) args \<and> \<not> present (args ! i))"
  then obtain args n where
    rd: "arguments_read env (descriptors prog) argv
           (arguments_initialize (zero_value prog) (descriptors prog)) 1 = Some (AC_OK, args, n)"
    and ex: "\<exists>i<length (descriptors prog).
               is_required (descriptors prog ! i) args \<and> \<not> present (args ! i)" by blast
  from ex obtain i where "find_missing (descriptors prog) args = Some i"
    using find_missing_None[of "descriptors prog" args] by (cases "find_missing (descriptors prog) args") auto
  with rd have "main env prog argv =
      Some (Ret_missing i, \<lparr>arguments = args, handlers = [], trace = []\<rparr>)"
    by (simp add: main_missing)
  then show "\<exists>i p. main env prog argv = Some (Ret_missing i, p)" by blast
next
  fix i p
  assume m: "main env prog argv = Some (Ret_missing i, p)"
  show "exit_code (Ret_missing i) = 120" by simp
  from m show "run_process env prog argv = Some (120, p)"
    using m[unfolded main_missing] by (simp add: run_process_def exit_process_def)
  from m[unfolded main_missing] show "is_required (descriptors prog ! i) (arguments p)"
    "\<not> present (arguments p ! i)"
    "\<exists>n. arguments_read env (descriptors prog) argv
              (arguments_initialize (zero_value prog) (descriptors prog)) 1 =
              Some (AC_OK, arguments p, n)"
    "handlers p = []" "trace p = []"
    by (auto simp: find_missing_Some)
  from m[unfolded main_missing] obtain n where
    "arguments_read env (descriptors prog) argv
       (arguments_initialize (zero_value prog) (descriptors prog)) 1 =
       Some (AC_OK, arguments p, n)" by blast
  from arguments_read_initialized[OF this]
  show "\<forall>a \<in> set (arguments p). \<not> initialized a" by simp
qed

text \<open>
  The theorem at a table with one required argument and an empty command line.
\<close>

theorem missing_required_witness:
  "(\<exists>i p. main (ex_env [ex_arg ''count'' (Some ''-c'') 1 True])
                    (ex_program [ex_arg ''count'' (Some ''-c'') 1 True]) [''prog''] =
            Some (Ret_missing i, p)) \<and>
   run_process (ex_env [ex_arg ''count'' (Some ''-c'') 1 True])
     (ex_program [ex_arg ''count'' (Some ''-c'') 1 True]) [''prog''] =
     Some (120, \<lparr>arguments = [ex_absent], handlers = [], trace = []\<rparr>)"
proof -
  let ?S = "[ex_arg ''count'' (Some ''-c'') 1 True]"
  let ?P = "ex_program ?S"
  note t = missing_required[of "ex_env ?S" ?P "[''prog'']"]
  have "\<exists>args n. arguments_read (ex_env ?S) (descriptors ?P) [''prog'']
                   (arguments_initialize (zero_value ?P) (descriptors ?P)) 1 =
                   Some (AC_OK, args, n) \<and>
                 (\<exists>i<length (descriptors ?P).
                    is_required (descriptors ?P ! i) args \<and> \<not> present (args ! i))"
    unfolding ex_program_sel ex_count_init
    using ex_count_read_none ex_count_required by (intro exI[of _ "[ex_absent]"] exI[of _ 1]) auto
  with t have a: "\<exists>i p. main (ex_env ?S) ?P [''prog''] = Some (Ret_missing i, p)" by blast
  have m: "main (ex_env ?S) ?P [''prog''] =
      Some (Ret_missing 0, \<lparr>arguments = [ex_absent], handlers = [], trace = []\<rparr>)"
    using ex_count_required
    by (simp add: main_def ex_program_sel ex_count_init ex_count_read_none find_missing_def)
  with t have "run_process (ex_env ?S) ?P [''prog''] =
      Some (120, \<lparr>arguments = [ex_absent], handlers = [], trace = []\<rparr>)" by blast
  with a show ?thesis by blast
qed

text \<open>
  The claim fails in both directions of its wording. With \<^verbatim>\<open>--help\<close> on the
  command line the required argument is absent and \<open>main\<close> returns 0 all the
  same. And on an empty command line \<open>main\<close> reports the missing argument before
  any default provider has run: the record is not initialised, though the default
  provider would have given a value.
\<close>

theorem missing_required_counterexample:
  "is_required ([ex_arg ''count'' (Some ''-c'') 1 True] ! 0) [ex_absent] \<and>
   \<not> present ([ex_absent] ! 0) \<and>
   main (ex_env [ex_arg ''count'' (Some ''-c'') 1 True])
     (ex_program [ex_arg ''count'' (Some ''-c'') 1 True]) [''prog'', ''--help''] =
     Some (Ret_help, \<lparr>arguments = [ex_absent], handlers = [], trace = []\<rparr>) \<and>
   snd (set_default (ex_arg ''count'' (Some ''-c'') 1 True) (val ex_absent)) \<and>
   main (ex_env [ex_arg ''count'' (Some ''-c'') 1 True])
     (ex_program [ex_arg ''count'' (Some ''-c'') 1 True]) [''prog''] =
     Some (Ret_missing 0, \<lparr>arguments = [ex_absent], handlers = [], trace = []\<rparr>) \<and>
   \<not> initialized ex_absent"
proof -
  let ?S = "[ex_arg ''count'' (Some ''-c'') 1 True]"
  let ?P = "ex_program ?S"
  have h: "main (ex_env ?S) ?P [''prog'', ''--help''] =
      Some (Ret_help, \<lparr>arguments = [ex_absent], handlers = [], trace = []\<rparr>)"
    by (simp add: main_def ex_program_sel ex_count_init ex_count_read_help)
  have m: "main (ex_env ?S) ?P [''prog''] =
      Some (Ret_missing 0, \<lparr>arguments = [ex_absent], handlers = [], trace = []\<rparr>)"
    using ex_count_required
    by (simp add: main_def ex_program_sel ex_count_init ex_count_read_none find_missing_def)
  have s: "snd (set_default (ex_arg ''count'' (Some ''-c'') 1 True) (val ex_absent))"
    by (simp add: ex_arg_def)
  have i: "\<not> initialized ex_absent" by (simp add: ex_absent_def)
  from ex_count_required h s m i show ?thesis by blast
qed

end
